theory Spec2Isabelle
  imports Complex_Main "HOL-Library.Sublist" "HOL-Library.Log_Nat"
begin

section \<open>Python values\<close>

text \<open>
  The handlers of \<^verbatim>\<open>main.py\<close> work on JSON data (dictionaries, lists, strings, numbers)
  and fail by raising exceptions. Values are modelled by a datatype, a dictionary by the
  list of its items, and every \<^verbatim>\<open>raise\<close> by a result \<open>Inl e\<close> of the type \<open>exn + 'a\<close>.
  The string methods and the Unicode tables they read are in the subsection on strings.
\<close>

subsection \<open>Floats\<close>

text \<open>
  A Python float is an IEEE-754 binary64 number: not-a-number, an infinity, or a finite
  number, which is kept here as its exact rational value (the sign of zero is not kept:
  \<^verbatim>\<open>-0.0 == 0.0\<close> in every comparison). An arithmetic operation computes the exact
  result and rounds it to the nearest representable number, a tie to the one with an even
  significand (\<open>binary64\<close>).
\<close>

datatype pyfloat = NaN | NegInf | Fin rat | PosInf

text \<open>Rounding to the nearest integer, a tie to the even one.\<close>

definition round_half_even :: "rat \<Rightarrow> int" where
  "round_half_even q =
     (let f = \<lfloor>q\<rfloor>; d = q - of_int f
      in if d < 1 / 2 then f else if 1 / 2 < d then f + 1 else if even f then f else f + 1)"

text \<open>The binary exponent of a positive rational: \<open>2 powi ilog2 q \<le> q < 2 powi (ilog2 q + 1)\<close>.\<close>

definition ilog2 :: "rat \<Rightarrow> int" where
  "ilog2 q =
     (let e = bitlen (fst (quotient_of q)) - bitlen (snd (quotient_of q))
      in if 2 powi e \<le> q then e else e - 1)"

text \<open>
  The spacing of the binary64 numbers around \<open>q\<close>: 53 significant bits, and the
  subnormal spacing \<open>2 powi - 1074\<close> below \<open>2 powi - 1022\<close>.
\<close>

definition grid :: "rat \<Rightarrow> rat" where
  "grid q = 2 powi (max (ilog2 \<bar>q\<bar>) (- 1022) - 52)"

text \<open>
  Rounding to the nearest multiple of the spacing, and binary64 rounding: a result of
  magnitude \<open>2 powi 1024\<close> is an overflow, which IEEE-754 rounds to an infinity.
\<close>

definition round_grid :: "rat \<Rightarrow> rat" where
  "round_grid q = of_int (round_half_even (q / grid q)) * grid q"

definition overflow :: rat where
  "overflow = 2 powi 1024"

definition binary64 :: "rat \<Rightarrow> pyfloat" where
  "binary64 q =
     (let r = round_grid q
      in if overflow \<le> r then PosInf else if r \<le> - overflow then NegInf else Fin r)"

fun float_neg :: "pyfloat \<Rightarrow> pyfloat" where
  "float_neg NaN = NaN"
| "float_neg NegInf = PosInf"
| "float_neg PosInf = NegInf"
| "float_neg (Fin q) = Fin (- q)"

fun float_add :: "pyfloat \<Rightarrow> pyfloat \<Rightarrow> pyfloat" where
  "float_add (Fin a) (Fin b) = binary64 (a + b)"
| "float_add NaN y = NaN"
| "float_add x NaN = NaN"
| "float_add PosInf NegInf = NaN"
| "float_add NegInf PosInf = NaN"
| "float_add PosInf y = PosInf"
| "float_add NegInf y = NegInf"
| "float_add x PosInf = PosInf"
| "float_add x NegInf = NegInf"

definition float_sub :: "pyfloat \<Rightarrow> pyfloat \<Rightarrow> pyfloat" where
  "float_sub x y = float_add x (float_neg y)"

text \<open>\<^verbatim>\<open>float(i)\<close> for a Python int: correctly rounded, OverflowError beyond the range.\<close>

definition float_of_int :: "int \<Rightarrow> pyfloat option" where
  "float_of_int i = (case binary64 (of_int i) of Fin q \<Rightarrow> Some (Fin q) | _ \<Rightarrow> None)"

text \<open>
  The comparisons of Python's numbers are exact, also between an int and a float;
  every comparison with not-a-number is false.
\<close>

fun float_le :: "pyfloat \<Rightarrow> pyfloat \<Rightarrow> bool" where
  "float_le NaN y = False"
| "float_le x NaN = False"
| "float_le NegInf y = True"
| "float_le x PosInf = True"
| "float_le (Fin a) (Fin b) = (a \<le> b)"
| "float_le x y = False"

fun float_lt :: "pyfloat \<Rightarrow> pyfloat \<Rightarrow> bool" where
  "float_lt NaN y = False"
| "float_lt x NaN = False"
| "float_lt (Fin a) (Fin b) = (a < b)"
| "float_lt NegInf NegInf = False"
| "float_lt PosInf y = False"
| "float_lt NegInf y = True"
| "float_lt x PosInf = True"
| "float_lt x y = False"

text \<open>
  \<^verbatim>\<open>round(x, 2)\<close> for a float: CPython prints the exact value with two decimals, correctly
  rounded (a tie to even), and reads the decimal string back as the nearest float; an
  infinity and not-a-number round to themselves.
\<close>

fun float_round2 :: "pyfloat \<Rightarrow> pyfloat" where
  "float_round2 (Fin q) = binary64 (of_int (round_half_even (q * 100)) / 100)"
| "float_round2 x = x"

subsection \<open>Strings\<close>

text \<open>
  A Python string is a sequence of Unicode code points. It is kept here as the bytes of
  its UTF-8 encoding, and a character as the bytes of one code point: a byte that is not
  a continuation byte (codes 128 to 191) together with the continuation bytes that follow
  it. Two strings are equal when their bytes are, and one occurs in the other when its
  bytes do: an encoded character never begins inside another one (lemma
  \<open>str_contains_chars\<close>).
\<close>

definition is_continuation :: "char \<Rightarrow> bool" where
  "is_continuation c \<longleftrightarrow> 128 \<le> (of_char c :: nat) \<and> (of_char c :: nat) < 192"

function utf8_chars :: "string \<Rightarrow> string list" where
  "utf8_chars [] = []"
| "utf8_chars (c # cs) =
     (c # takeWhile is_continuation cs) # utf8_chars (dropWhile is_continuation cs)"
  by pat_completeness auto
termination
  by (relation "measure length") (auto simp: less_Suc_eq_le length_dropWhile_le)

text \<open>
  A string is well formed when every character of it begins with a byte that is not a
  continuation byte and has the length that this byte announces.
\<close>

definition lead_length :: "char \<Rightarrow> nat" where
  "lead_length c =
     (if (of_char c :: nat) < 128 then 1 else if (of_char c :: nat) < 224 then 2
      else if (of_char c :: nat) < 240 then 3 else 4)"

definition well_formed :: "string \<Rightarrow> bool" where
  "well_formed s \<longleftrightarrow>
     (\<forall>c \<in> set (utf8_chars s). \<not> is_continuation (hd c) \<and> length c = lead_length (hd c))"

text \<open>
  The string methods read the Unicode character database, which is not code of this
  repository. Its tables are the argument \<open>ucd\<close> of the methods:

  \<^item> \<open>to_lower_full\<close>: the lower-case mapping of a character, a string of one to three
    characters (the character itself when it has no mapping);
  \<^item> \<open>is_cased\<close>, \<open>is_case_ignorable\<close>: the properties Cased and Case_Ignorable;
  \<^item> \<open>is_space\<close>: the whitespace of \<^verbatim>\<open>str.isspace\<close>.
\<close>

record unicode =
  to_lower_full :: "string \<Rightarrow> string"
  is_cased :: "string \<Rightarrow> bool"
  is_case_ignorable :: "string \<Rightarrow> bool"
  is_space :: "string \<Rightarrow> bool"

text \<open>
  \<^verbatim>\<open>s.lower()\<close> maps every character by \<open>to_lower_full\<close>, but for the Greek capital
  sigma (U+03A3), which becomes the final small sigma (U+03C2) at the end of a word and
  the small sigma (U+03C3) elsewhere. It is at the end of a word when the nearest
  character before it that is not case-ignorable exists and is cased, and the nearest
  character after it that is not case-ignorable does not exist or is not cased. The
  list \<open>before\<close> holds the characters before the current one, the nearest first.
\<close>

definition capital_sigma :: string where
  "capital_sigma = [CHR 0xCE, CHR 0xA3]"

definition small_sigma :: string where
  "small_sigma = [CHR 0xCF, CHR 0x83]"

definition final_small_sigma :: string where
  "final_small_sigma = [CHR 0xCF, CHR 0x82]"

definition final_sigma :: "unicode \<Rightarrow> string list \<Rightarrow> string list \<Rightarrow> bool" where
  "final_sigma ucd before after =
     (case dropWhile (is_case_ignorable ucd) before of
        [] \<Rightarrow> False
      | p # ps \<Rightarrow>
          is_cased ucd p \<and>
          (case dropWhile (is_case_ignorable ucd) after of
             [] \<Rightarrow> True
           | n # ns \<Rightarrow> \<not> is_cased ucd n))"

fun lower_chars :: "unicode \<Rightarrow> string list \<Rightarrow> string list \<Rightarrow> string list" where
  "lower_chars ucd before [] = []"
| "lower_chars ucd before (c # after) =
     (if c = capital_sigma
      then (if final_sigma ucd before after then final_small_sigma else small_sigma)
      else to_lower_full ucd c) # lower_chars ucd (c # before) after"

definition str_lower :: "unicode \<Rightarrow> string \<Rightarrow> string" where
  "str_lower ucd s = concat (lower_chars ucd [] (utf8_chars s))"

text \<open>\<^verbatim>\<open>s.strip()\<close>: without the whitespace characters at its two ends.\<close>

definition str_strip :: "unicode \<Rightarrow> string \<Rightarrow> string" where
  "str_strip ucd s =
     concat (rev (dropWhile (is_space ucd) (rev (dropWhile (is_space ucd) (utf8_chars s)))))"

text \<open>\<^verbatim>\<open>k in t\<close> on strings: \<open>k\<close> occurs in \<open>t\<close> as a contiguous substring.\<close>

fun str_contains :: "string \<Rightarrow> string \<Rightarrow> bool" where
  "str_contains [] k = (k = [])"
| "str_contains (c # cs) k = (prefix k (c # cs) \<or> str_contains cs k)"

subsection \<open>Values and exceptions\<close>

datatype pyval =
    PNone
  | PBool bool
  | PInt int
  | PFloat pyfloat
  | PStr string
  | PList "pyval list"
  | PDict "(string \<times> pyval) list"

type_synonym pydict = "(string \<times> pyval) list"

text \<open>
  The exceptions the handlers can meet. \<open>KeyError\<close> carries the missing key,
  \<open>CalledProcessError\<close> the exit status and the command line, \<open>HTTPException\<close> the status
  code and the detail; the others carry their message.
\<close>

datatype exn =
    KeyError string
  | AttributeError string
  | TypeError string
  | OverflowError string
  | FileNotFoundError string
  | OSError string
  | CalledProcessError int "string list"
  | HTTPException nat string

definition exn_bind :: "exn + 'a \<Rightarrow> ('a \<Rightarrow> exn + 'b) \<Rightarrow> exn + 'b" where
  "exn_bind m f = (case m of Inl e \<Rightarrow> Inl e | Inr x \<Rightarrow> f x)"

text \<open>\<^verbatim>\<open>d[k]\<close>\<close>

definition getitem :: "pydict \<Rightarrow> string \<Rightarrow> exn + pyval" where
  "getitem d k = (case map_of d k of None \<Rightarrow> Inl (KeyError k) | Some v \<Rightarrow> Inr v)"

text \<open>\<^verbatim>\<open>v.lower()\<close> and \<^verbatim>\<open>v.strip()\<close>: methods of \<^verbatim>\<open>str\<close> only.\<close>

fun py_lower :: "unicode \<Rightarrow> pyval \<Rightarrow> exn + string" where
  "py_lower ucd (PStr s) = Inr (str_lower ucd s)"
| "py_lower ucd v = Inl (AttributeError ''lower'')"

fun py_strip :: "unicode \<Rightarrow> pyval \<Rightarrow> exn + string" where
  "py_strip ucd (PStr s) = Inr (str_strip ucd s)"
| "py_strip ucd v = Inl (AttributeError ''strip'')"

text \<open>
  \<^verbatim>\<open>v - w\<close> and \<^verbatim>\<open>v + w\<close> for a Python int \<open>w\<close>. A bool is an int (0 or 1); a float
  operand converts \<open>w\<close> to a float first, which overflows for a huge \<open>w\<close>; every other
  type of \<open>v\<close> is a TypeError.
\<close>

fun py_sub_int :: "pyval \<Rightarrow> int \<Rightarrow> exn + pyval" where
  "py_sub_int (PInt i) w = Inr (PInt (i - w))"
| "py_sub_int (PBool b) w = Inr (PInt (of_bool b - w))"
| "py_sub_int (PFloat x) w =
     (case float_of_int w of
        None \<Rightarrow> Inl (OverflowError ''int too large to convert to float'')
      | Some y \<Rightarrow> Inr (PFloat (float_sub x y)))"
| "py_sub_int v w = Inl (TypeError ''unsupported operand type(s) for -'')"

fun py_add_int :: "pyval \<Rightarrow> int \<Rightarrow> exn + pyval" where
  "py_add_int (PInt i) w = Inr (PInt (i + w))"
| "py_add_int (PBool b) w = Inr (PInt (of_bool b + w))"
| "py_add_int (PFloat x) w =
     (case float_of_int w of
        None \<Rightarrow> Inl (OverflowError ''int too large to convert to float'')
      | Some y \<Rightarrow> Inr (PFloat (float_add x y)))"
| "py_add_int v w = Inl (TypeError ''unsupported operand type(s) for +'')"

text \<open>\<^verbatim>\<open>max(v, 0)\<close>: the int \<^verbatim>\<open>0\<close> when \<^verbatim>\<open>0 > v\<close>, else \<open>v\<close> itself.\<close>

fun py_max0 :: "pyval \<Rightarrow> exn + pyval" where
  "py_max0 (PInt i) = Inr (if 0 > i then PInt 0 else PInt i)"
| "py_max0 (PBool b) = Inr (PBool b)"
| "py_max0 (PFloat x) = Inr (if float_lt x (Fin 0) then PInt 0 else PFloat x)"
| "py_max0 v = Inl (TypeError ''> not supported'')"

text \<open>\<^verbatim>\<open>round(v, 2)\<close>: an int is returned as it is (a bool as an int).\<close>

fun py_round2 :: "pyval \<Rightarrow> exn + pyval" where
  "py_round2 (PInt i) = Inr (PInt i)"
| "py_round2 (PBool b) = Inr (PInt (of_bool b))"
| "py_round2 (PFloat x) = Inr (PFloat (float_round2 x))"
| "py_round2 v = Inl (TypeError ''type doesn't define __round__ method'')"

section \<open>Keyword search\<close>

text \<open>
  \<^verbatim>\<open>SearchRequest\<close>: pydantic checks that \<open>segments\<close> is a list of dictionaries (with any
  keys and values), \<open>keyword\<close> a string and \<open>window\<close> an int.
\<close>

record SearchRequest =
  segments :: "pydict list"
  keyword :: string
  window :: int

text \<open>Lines 221 to 229: the entry appended for a segment that matches.\<close>

definition make_match :: "unicode \<Rightarrow> int \<Rightarrow> pydict \<Rightarrow> exn + pyval" where
  "make_match ucd w seg =
     exn_bind (getitem seg ''start'') (\<lambda>s.
     exn_bind (py_sub_int s w) (\<lambda>d.
     exn_bind (py_max0 d) (\<lambda>start.
     exn_bind (getitem seg ''end'') (\<lambda>e.
     exn_bind (py_add_int e w) (\<lambda>end.
     exn_bind (getitem seg ''start'') (\<lambda>s'.
     exn_bind (py_round2 s') (\<lambda>found_at.
     exn_bind (py_round2 start) (\<lambda>clip_start.
     exn_bind (py_round2 end) (\<lambda>clip_end.
     exn_bind (getitem seg ''text'') (\<lambda>t.
     exn_bind (py_strip ucd t) (\<lambda>text.
       Inr (PDict [(''found_at'', found_at), (''clip_start'', clip_start),
                   (''clip_end'', clip_end), (''text'', PStr text)]))))))))))))"

text \<open>Lines 219 to 229: the loop, with the list \<open>results\<close> it appends to.\<close>

fun search_loop ::
    "unicode \<Rightarrow> string \<Rightarrow> int \<Rightarrow> pydict list \<Rightarrow> pyval list \<Rightarrow> exn + pyval list" where
  "search_loop ucd kw w [] results = Inr results"
| "search_loop ucd kw w (seg # segs) results =
     exn_bind (getitem seg ''text'') (\<lambda>t.
     exn_bind (py_lower ucd t) (\<lambda>low.
       if str_contains low kw
       then exn_bind (make_match ucd w seg) (\<lambda>m. search_loop ucd kw w segs (results @ [m]))
       else search_loop ucd kw w segs results))"

definition search_keyword :: "unicode \<Rightarrow> SearchRequest \<Rightarrow> exn + pyval" where
  "search_keyword ucd data =
     (let kw = str_lower ucd (keyword data)
      in exn_bind (search_loop ucd kw (window data) (segments data) []) (\<lambda>results.
           Inr (PDict [(''keyword'', PStr (keyword data)), (''matches'', PList results)])))"

section \<open>The runtime and the operating system\<close>

text \<open>
  The other handlers work on the file system and run external programs. A handler is a
  function from the state of the world to its result (a response or an exception) and
  the new state. What the operating system, the external programs and the Python runtime
  do is not code of this repository: it is the argument \<open>sys\<close> of every handler, and
  the theorems hold for every behaviour of it.
\<close>

type_synonym ('w, 'a) io = "'w \<Rightarrow> (exn + 'a) \<times> 'w"

definition io_return :: "'a \<Rightarrow> ('w, 'a) io" where
  "io_return x = (\<lambda>w. (Inr x, w))"

definition io_raise :: "exn \<Rightarrow> ('w, 'a) io" where
  "io_raise e = (\<lambda>w. (Inl e, w))"

definition io_bind :: "('w, 'a) io \<Rightarrow> ('a \<Rightarrow> ('w, 'b) io) \<Rightarrow> ('w, 'b) io" where
  "io_bind m f = (\<lambda>w. case m w of (Inl e, w') \<Rightarrow> (Inl e, w') | (Inr x, w') \<Rightarrow> f x w')"

text \<open>\<^verbatim>\<open>try: m  except Exception as e: h e\<close>\<close>

definition io_try :: "('w, 'a) io \<Rightarrow> (exn \<Rightarrow> ('w, 'a) io) \<Rightarrow> ('w, 'a) io" where
  "io_try m h = (\<lambda>w. case m w of (Inl e, w') \<Rightarrow> h e w' | (Inr x, w') \<Rightarrow> (Inr x, w'))"

text \<open>
  \<^item> \<open>BASE_DIR\<close>: the directory of \<^verbatim>\<open>main.py\<close>;
  \<^item> \<open>uuid4\<close>: \<^verbatim>\<open>str(uuid.uuid4())\<close>;
  \<^item> \<open>os_listdir\<close>, \<open>os_path_exists\<close>, \<open>os_remove\<close>: \<^verbatim>\<open>os.listdir\<close>,
    \<^verbatim>\<open>os.path.exists\<close>, \<^verbatim>\<open>os.remove\<close>;
  \<^item> \<open>write_file path bytes\<close>: \<^verbatim>\<open>with open(path, "wb") as f: f.write(bytes)\<close>;
  \<^item> \<open>run_process cmd\<close>: starts the command and waits for it; the result is its return
    code, or the exception of a command that could not be started;
  \<^item> \<open>float_str\<close>: \<^verbatim>\<open>str(x)\<close> for a float;
  \<^item> \<open>died_with\<close>: the end of the message of a CalledProcessError with a negative
    return code (the name of the signal).
\<close>

record 'w system =
  BASE_DIR :: string
  uuid4 :: "'w \<Rightarrow> string \<times> 'w"
  os_listdir :: "string \<Rightarrow> 'w \<Rightarrow> exn + string list"
  os_path_exists :: "string \<Rightarrow> 'w \<Rightarrow> bool"
  os_remove :: "string \<Rightarrow> ('w, unit) io"
  write_file :: "string \<Rightarrow> string \<Rightarrow> ('w, unit) io"
  run_process :: "string list \<Rightarrow> ('w, int) io"
  float_str :: "pyfloat \<Rightarrow> string"
  died_with :: "int \<Rightarrow> string"

text \<open>\<^verbatim>\<open>os.path.join(a, p)\<close> and the extension of \<^verbatim>\<open>os.path.splitext(p)\<close>, as on POSIX.\<close>

definition path_join :: "string \<Rightarrow> string \<Rightarrow> string" where
  "path_join a p =
     (if prefix ''/'' p then p
      else if a = [] \<or> last a = CHR ''/'' then a @ p
      else a @ ''/'' @ p)"

definition splitext_ext :: "string \<Rightarrow> string" where
  "splitext_ext p =
     (let base = rev (takeWhile (\<lambda>c. c \<noteq> CHR ''/'') (rev p));
          ext = rev (takeWhile (\<lambda>c. c \<noteq> CHR ''.'') (rev base));
          stem = take (length base - length ext - 1) base
      in if CHR ''.'' \<in> set base \<and> (\<exists>c \<in> set stem. c \<noteq> CHR ''.'') then CHR ''.'' # ext else [])"

definition VIDEO_DIR :: "'w system \<Rightarrow> string" where
  "VIDEO_DIR sys = path_join (BASE_DIR sys) ''videos''"

definition TEMP_DIR :: "'w system \<Rightarrow> string" where
  "TEMP_DIR sys = path_join (BASE_DIR sys) ''temp''"

definition CLIPS_DIR :: "'w system \<Rightarrow> string" where
  "CLIPS_DIR sys = path_join (BASE_DIR sys) ''clips''"

definition AUDIO_DIR :: "'w system \<Rightarrow> string" where
  "AUDIO_DIR sys = path_join (BASE_DIR sys) ''audio''"

text \<open>\<^verbatim>\<open>subprocess.run(cmd, check=True, ...)\<close>: a return code other than 0 is raised.\<close>

definition subprocess_run :: "'w system \<Rightarrow> string list \<Rightarrow> ('w, unit) io" where
  "subprocess_run sys cmd =
     io_bind (run_process sys cmd) (\<lambda>rc.
       if rc = 0 then io_return () else io_raise (CalledProcessError rc cmd))"

subsection \<open>The message of an exception\<close>

definition hex_digit :: "nat \<Rightarrow> char" where
  "hex_digit n = ''0123456789abcdef'' ! n"

fun show_nat :: "nat \<Rightarrow> string" where
  "show_nat n = (if n < 10 then [hex_digit n] else show_nat (n div 10) @ [hex_digit (n mod 10)])"

definition show_int :: "int \<Rightarrow> string" where
  "show_int i = (if i < 0 then CHR ''-'' # show_nat (nat (- i)) else show_nat (nat i))"

text \<open>
  \<^verbatim>\<open>repr(s)\<close> of an ASCII string: in single quotes, or in double quotes when it has a
  single quote and no double quote; the quote and the backslash are escaped, and so are
  the control characters.
\<close>

definition repr_char :: "char \<Rightarrow> char \<Rightarrow> string" where
  "repr_char quote c =
     (if c = quote \<or> c = CHR 0x5C then [CHR 0x5C, c]
      else if c = CHR 0x09 then [CHR 0x5C, CHR ''t'']
      else if c = CHR 0x0A then [CHR 0x5C, CHR ''n'']
      else if c = CHR 0x0D then [CHR 0x5C, CHR ''r'']
      else if (of_char c :: nat) < 32 \<or> (of_char c :: nat) = 127
        then [CHR 0x5C, CHR ''x'', hex_digit (of_char c div 16), hex_digit (of_char c mod 16)]
      else [c])"

definition repr_str :: "string \<Rightarrow> string" where
  "repr_str s =
     (let quote = (if CHR 0x27 \<in> set s \<and> CHR 0x22 \<notin> set s then CHR 0x22 else CHR 0x27)
      in quote # concat (map (repr_char quote) s) @ [quote])"

fun join_comma :: "string list \<Rightarrow> string" where
  "join_comma [] = []"
| "join_comma [x] = x"
| "join_comma (x # y # ys) = x @ '', '' @ join_comma (y # ys)"

definition repr_list :: "string list \<Rightarrow> string" where
  "repr_list xs = ''['' @ join_comma (map repr_str xs) @ '']''"

text \<open>\<^verbatim>\<open>str(e)\<close>\<close>

fun py_str :: "'w system \<Rightarrow> exn \<Rightarrow> string" where
  "py_str sys (CalledProcessError rc cmd) =
     (if rc < 0
      then ''Command '' @ [CHR 0x27] @ repr_list cmd @ [CHR 0x27] @ '' died with '' @ died_with sys rc
      else ''Command '' @ [CHR 0x27] @ repr_list cmd @ [CHR 0x27]
             @ '' returned non-zero exit status '' @ show_int rc @ ''.'')"
| "py_str sys (KeyError k) = repr_str k"
| "py_str sys (AttributeError m) = m"
| "py_str sys (TypeError m) = m"
| "py_str sys (OverflowError m) = m"
| "py_str sys (FileNotFoundError m) = m"
| "py_str sys (OSError m) = m"
| "py_str sys (HTTPException c d) = show_nat c @ '': '' @ d"

text \<open>
  What FastAPI answers: the status of an HTTPException, 500 for any other exception,
  and for a returned body status 200 with the body as JSON. The encoder refuses
  not-a-number and the infinities (\<^verbatim>\<open>allow_nan=False\<close>): a body that holds one of them
  raises in the encoder, and the answer is 500.
\<close>

fun json_compliant :: "pyval \<Rightarrow> bool" where
  "json_compliant (PFloat (Fin q)) = True"
| "json_compliant (PFloat x) = False"
| "json_compliant (PList vs) = list_all json_compliant vs"
| "json_compliant (PDict d) = list_all (\<lambda>kv. json_compliant (snd kv)) d"
| "json_compliant v = True"

fun http_status :: "exn + pyval \<Rightarrow> nat" where
  "http_status (Inr body) = (if json_compliant body then 200 else 500)"
| "http_status (Inl (HTTPException c d)) = c"
| "http_status (Inl e) = 500"

section \<open>Helpers (lines 38 to 116)\<close>

definition extract_audio :: "'w system \<Rightarrow> string \<Rightarrow> string \<Rightarrow> ('w, unit) io" where
  "extract_audio sys video_path audio_path =
     subprocess_run sys
       [''ffmpeg'', ''-y'', ''-i'', video_path, ''-ac'', ''1'', ''-ar'', ''16000'', audio_path]"

definition transcribe_audio :: "string \<Rightarrow> pyval list" where
  "transcribe_audio audio_path = []"

definition create_video_clip ::
    "'w system \<Rightarrow> string \<Rightarrow> pyfloat \<Rightarrow> pyfloat \<Rightarrow> string \<Rightarrow> ('w, unit) io" where
  "create_video_clip sys video_path start_time end_time output_path =
     (let duration = float_sub end_time start_time
      in io_try
           (subprocess_run sys
              [''ffmpeg'', ''-y'', ''-i'', video_path, ''-ss'', float_str sys start_time,
               ''-t'', float_str sys duration, ''-c'', ''copy'', output_path])
           (\<lambda>e. case e of
              CalledProcessError rc cmd \<Rightarrow>
                subprocess_run sys
                  [''ffmpeg'', ''-y'', ''-i'', video_path, ''-ss'', float_str sys start_time,
                   ''-t'', float_str sys duration, ''-c:v'', ''libx264'', ''-c:a'', ''aac'',
                   output_path]
            | _ \<Rightarrow> io_raise e))"

definition create_audio_clip ::
    "'w system \<Rightarrow> string \<Rightarrow> pyfloat \<Rightarrow> pyfloat \<Rightarrow> string \<Rightarrow> ('w, unit) io" where
  "create_audio_clip sys audio_path start_time end_time output_path =
     (let duration = float_sub end_time start_time
      in subprocess_run sys
           [''ffmpeg'', ''-y'', ''-i'', audio_path, ''-ss'', float_str sys start_time,
            ''-t'', float_str sys duration, ''-ac'', ''1'', ''-ar'', ''16000'', output_path])"

section \<open>Upload (lines 134 to 157)\<close>

record UploadFile =
  filename :: string
  content :: string

text \<open>The body of the \<^verbatim>\<open>try\<close>, lines 143 to 152.\<close>

definition upload_body ::
    "'w system \<Rightarrow> UploadFile \<Rightarrow> string \<Rightarrow> string \<Rightarrow> string \<Rightarrow> ('w, pyval) io" where
  "upload_body sys file video_id video_path audio_path =
     io_bind (write_file sys video_path (content file)) (\<lambda>_.
     io_bind (extract_audio sys video_path audio_path) (\<lambda>_.
       let segments = transcribe_audio audio_path
       in io_return (PDict [(''video_id'', PStr video_id), (''segments'', PList segments)])))"

text \<open>The handler of the \<^verbatim>\<open>except\<close>, lines 155 to 157.\<close>

definition upload_cleanup :: "'w system \<Rightarrow> string \<Rightarrow> exn \<Rightarrow> ('w, pyval) io" where
  "upload_cleanup sys video_path e =
     (\<lambda>w. if os_path_exists sys video_path w
          then io_bind (os_remove sys video_path) (\<lambda>_. io_raise e) w
          else io_raise e w)"

definition upload_video :: "'w system \<Rightarrow> UploadFile \<Rightarrow> ('w, pyval) io" where
  "upload_video sys file =
     (\<lambda>w. let (video_id, w1) = uuid4 sys w;
              file_ext = (let ext = splitext_ext (filename file)
                          in if ext = [] then ''.mp4'' else ext);
              video_path = path_join (VIDEO_DIR sys) (video_id @ file_ext);
              audio_path = path_join (TEMP_DIR sys) (video_id @ ''.wav'')
          in io_try (upload_body sys file video_id video_path audio_path)
               (upload_cleanup sys video_path) w1)"

section \<open>Download (lines 159 to 212)\<close>

text \<open>Lines 200 to 205: every removal is tried, and an exception of it is dropped.\<close>

fun remove_each :: "'w system \<Rightarrow> string \<Rightarrow> string list \<Rightarrow> 'w \<Rightarrow> 'w" where
  "remove_each sys dir [] w = w"
| "remove_each sys dir (vf # vfs) w =
     remove_each sys dir vfs (snd (os_remove sys (path_join dir vf) w))"

text \<open>The body of the \<^verbatim>\<open>try\<close>, lines 168 to 197.\<close>

definition youtube_body ::
    "'w system \<Rightarrow> string \<Rightarrow> string \<Rightarrow> string \<Rightarrow> string \<Rightarrow> ('w, pyval) io" where
  "youtube_body sys url video_id video_template audio_path =
     io_bind
       (io_try
          (subprocess_run sys
             [''python'', ''-m'', ''yt_dlp'', ''-f'', ''best[ext=mp4]/best'', ''-o'',
              video_template, url])
          (\<lambda>e. case e of
             CalledProcessError rc cmd \<Rightarrow>
               subprocess_run sys [''python'', ''-m'', ''yt_dlp'', ''-o'', video_template, url]
           | _ \<Rightarrow> io_raise e))
       (\<lambda>_ w.
          case os_listdir sys (VIDEO_DIR sys) w of
            Inl e \<Rightarrow> (Inl e, w)
          | Inr fs \<Rightarrow>
              (let video_files = filter (prefix video_id) fs
               in if video_files = [] then io_raise (FileNotFoundError ''Video download failed'') w
                  else
                    (let video_path = path_join (VIDEO_DIR sys) (hd video_files)
                     in io_bind (extract_audio sys video_path audio_path) (\<lambda>_.
                          let segments = transcribe_audio audio_path
                          in io_return
                               (PDict [(''video_id'', PStr video_id),
                                       (''segments'', PList segments)])) w)))"

text \<open>The handler of the \<^verbatim>\<open>except\<close>, lines 199 to 212.\<close>

definition youtube_cleanup :: "'w system \<Rightarrow> string \<Rightarrow> exn \<Rightarrow> ('w, pyval) io" where
  "youtube_cleanup sys video_id e =
     (\<lambda>w. case os_listdir sys (VIDEO_DIR sys) w of
            Inl e' \<Rightarrow> (Inl e', w)
          | Inr fs \<Rightarrow>
              (let video_files = filter (prefix video_id) fs;
                   w' = remove_each sys (VIDEO_DIR sys) video_files w;
                   error_msg = py_str sys e
               in if str_contains error_msg ''Video download failed''
                  then io_raise (HTTPException 400
                         ''Failed to download video. Please check the URL and try again.'') w'
                  else if str_contains error_msg ''yt_dlp'' \<or> str_contains error_msg ''yt-dlp''
                  then io_raise (HTTPException 500
                         ''YouTube downloader error. Please ensure yt-dlp is installed: pip install yt-dlp'') w'
                  else io_raise (HTTPException 500
                         (''Error processing YouTube video: '' @ error_msg)) w'))"

definition youtube :: "'w system \<Rightarrow> string \<Rightarrow> ('w, pyval) io" where
  "youtube sys url =
     (\<lambda>w. let (video_id, w1) = uuid4 sys w;
              video_template = path_join (VIDEO_DIR sys) (video_id @ ''.%(ext)s'');
              audio_path = path_join (TEMP_DIR sys) (video_id @ ''.wav'')
          in io_try (youtube_body sys url video_id video_template audio_path)
               (youtube_cleanup sys video_id) w1)"

section \<open>Clip generation (lines 236 to 275)\<close>

record ClipRequest =
  video_id :: string
  start_time :: pyfloat
  end_time :: pyfloat

text \<open>The body of the \<^verbatim>\<open>try\<close>, lines 258 to 267.\<close>

definition clip_body ::
    "'w system \<Rightarrow> ClipRequest \<Rightarrow> string \<Rightarrow> string \<Rightarrow> string \<Rightarrow> string \<Rightarrow> string
       \<Rightarrow> ('w, pyval) io" where
  "clip_body sys data video_path audio_path clip_id clip_video_path clip_audio_path =
     io_bind (create_video_clip sys video_path (start_time data) (end_time data) clip_video_path)
       (\<lambda>_.
     io_bind (\<lambda>w. if os_path_exists sys audio_path w
                  then create_audio_clip sys audio_path (start_time data) (end_time data)
                         clip_audio_path w
                  else io_return () w)
       (\<lambda>_ w.
          io_return
            (PDict [(''clip_id'', PStr clip_id),
                    (''video_clip'', PStr (''/clips/'' @ clip_id @ ''.mp4'')),
                    (''audio_clip'',
                       if os_path_exists sys clip_audio_path w
                       then PStr (''/audio/'' @ clip_id @ ''.wav'') else PNone)]) w))"

text \<open>
  The handler of the \<^verbatim>\<open>except\<close>, lines 270 to 275: the removal is tried, an exception of
  it is dropped, and \<open>e\<close> is raised again.
\<close>

definition clip_cleanup :: "'w system \<Rightarrow> string \<Rightarrow> exn \<Rightarrow> ('w, pyval) io" where
  "clip_cleanup sys clip_video_path e =
     (\<lambda>w. if os_path_exists sys clip_video_path w
          then io_raise e (snd (os_remove sys clip_video_path w))
          else io_raise e w)"

definition generate_clip :: "'w system \<Rightarrow> ClipRequest \<Rightarrow> ('w, pyval) io" where
  "generate_clip sys data =
     (\<lambda>w. case os_listdir sys (VIDEO_DIR sys) w of
            Inl e \<Rightarrow> (Inl e, w)
          | Inr fs \<Rightarrow>
              (let video_files = filter (prefix (video_id data)) fs
               in if video_files = [] then io_return (PDict [(''error'', PStr ''Video file not found'')]) w
                  else
                    (let video_path = path_join (VIDEO_DIR sys) (hd video_files);
                         audio_path = path_join (TEMP_DIR sys) (video_id data @ ''.wav'');
                         (clip_id, w1) = uuid4 sys w;
                         clip_video_path = path_join (CLIPS_DIR sys) (clip_id @ ''.mp4'');
                         clip_audio_path = path_join (AUDIO_DIR sys) (clip_id @ ''.wav'')
                     in io_try
                          (clip_body sys data video_path audio_path clip_id clip_video_path
                             clip_audio_path)
                          (clip_cleanup sys clip_video_path) w1)))"

section \<open>The notions of the specification\<close>

text \<open>
  The text of a segment contains the keyword, as the search tests it: the keyword in
  lower case occurs, as a contiguous substring, in the text in lower case.
\<close>

definition text_contains :: "unicode \<Rightarrow> string \<Rightarrow> pydict \<Rightarrow> bool" where
  "text_contains ucd k seg =
     (case map_of seg ''text'' of
        Some (PStr t) \<Rightarrow> sublist (str_lower ucd k) (str_lower ucd t)
      | _ \<Rightarrow> False)"

text \<open>
  A segment as the data model has it, for a search with the window \<open>w\<close>: a string
  \<open>text\<close>, numbers \<open>start\<close> and \<open>end\<close>, and a window that Python can convert to a
  float where a time is a float.
\<close>

fun is_number :: "pyval \<Rightarrow> bool" where
  "is_number (PInt i) = True"
| "is_number (PBool b) = True"
| "is_number (PFloat x) = True"
| "is_number v = False"

fun window_fits :: "int \<Rightarrow> pyval \<Rightarrow> bool" where
  "window_fits w (PFloat x) = (float_of_int w \<noteq> None)"
| "window_fits w v = True"

definition segment_ok :: "int \<Rightarrow> pydict \<Rightarrow> bool" where
  "segment_ok w seg =
     (case (map_of seg ''text'', map_of seg ''start'', map_of seg ''end'') of
        (Some (PStr t), Some s, Some e) \<Rightarrow>
          is_number s \<and> is_number e \<and> window_fits w s \<and> window_fits w e
      | _ \<Rightarrow> False)"

definition has_keys :: "pydict \<Rightarrow> bool" where
  "has_keys seg \<longleftrightarrow>
     map_of seg ''text'' \<noteq> None \<and> map_of seg ''start'' \<noteq> None \<and> map_of seg ''end'' \<noteq> None"

text \<open>The list under \<^verbatim>\<open>"matches"\<close> in a response.\<close>

definition matches_of :: "pyval \<Rightarrow> pyval list" where
  "matches_of r =
     (case r of
        PDict d \<Rightarrow> (case map_of d ''matches'' of Some (PList ms) \<Rightarrow> ms | _ \<Rightarrow> [])
      | _ \<Rightarrow> [])"

text \<open>The order of Python's numbers: \<^verbatim>\<open>a <= b\<close>.\<close>

fun num_of :: "pyval \<Rightarrow> pyfloat" where
  "num_of (PInt i) = Fin (of_int i)"
| "num_of (PBool b) = Fin (of_bool b)"
| "num_of (PFloat x) = x"
| "num_of v = NaN"

definition py_le :: "pyval \<Rightarrow> pyval \<Rightarrow> bool" where
  "py_le a b = float_le (num_of a) (num_of b)"

text \<open>A float that a JSON parser can produce: a finite one is a binary64 number.\<close>

fun is_double :: "pyval \<Rightarrow> bool" where
  "is_double (PFloat (Fin q)) = (binary64 q = Fin q)"
| "is_double v = True"

text \<open>
  What the handlers rely on of \<^verbatim>\<open>os.remove\<close>: after a removal that succeeded the path
  does not exist, and a removal changes the existence of no other path.
\<close>

definition remove_sound :: "'w system \<Rightarrow> bool" where
  "remove_sound sys \<longleftrightarrow>
     (\<forall>p w w'. os_remove sys p w = (Inr (), w') \<longrightarrow> \<not> os_path_exists sys p w') \<and>
     (\<forall>p q w. q \<noteq> p \<longrightarrow> os_path_exists sys q (snd (os_remove sys p w)) = os_path_exists sys q w)"

text \<open>A string that \<^verbatim>\<open>repr\<close> leaves as it is, whichever quote it chooses.\<close>

definition plain :: "string \<Rightarrow> bool" where
  "plain k \<longleftrightarrow> (\<forall>c \<in> set k. repr_char (CHR 0x27) c = [c] \<and> repr_char (CHR 0x22) c = [c])"

text \<open>
  The times of a segment as the data model has them: a start that is not negative, an
  end that is not before the start, and floats that are binary64 numbers.
\<close>

definition timestamps_ok :: "pydict \<Rightarrow> bool" where
  "timestamps_ok seg =
     (case (map_of seg ''start'', map_of seg ''end'') of
        (Some s, Some e) \<Rightarrow> py_le (PInt 0) s \<and> py_le s e \<and> is_double s \<and> is_double e
      | _ \<Rightarrow> False)"

text \<open>Rounding a rational to two decimals, a tie to even.\<close>

definition round2_rat :: "rat \<Rightarrow> rat" where
  "round2_rat q = of_int (round_half_even (q * 100)) / 100"

text \<open>The exponent of the spacing: \<open>grid q = 2 powi gexp q\<close>.\<close>

definition gexp :: "rat \<Rightarrow> int" where
  "gexp q = max (ilog2 \<bar>q\<bar>) (- 1022) - 52"

text \<open>
  The fields of a match, in the words of the specification. A time is an int (a bool
  counts as one) or a float.

  \<^item> Rounded to two decimal places: an int is left as it is; a finite float becomes
    the binary64 number nearest to its value rounded to two decimals; an infinity and
    not-a-number are left as they are.
  \<^item> The time plus, and minus, the window: exact for an int; for a finite float the
    binary64 number nearest to the exact result, with the window as a binary64 number.
  \<^item> The maximum of a time and \<open>0\<close>: the int \<open>0\<close> when the time is below zero.
  \<^item> A text stripped of its leading and trailing whitespace: the text is whitespace
    characters, then the result, then whitespace characters, and the result neither
    begins nor ends with a whitespace character.
\<close>

fun rounded2 :: "pyval \<Rightarrow> pyval" where
  "rounded2 (PBool b) = PInt (of_bool b)"
| "rounded2 (PFloat (Fin q)) = PFloat (binary64 (round2_rat q))"
| "rounded2 v = v"

fun plus_window :: "pyval \<Rightarrow> int \<Rightarrow> pyval" where
  "plus_window (PInt i) w = PInt (i + w)"
| "plus_window (PBool b) w = PInt (of_bool b + w)"
| "plus_window (PFloat (Fin q)) w = PFloat (binary64 (q + round_grid (of_int w)))"
| "plus_window v w = v"

fun minus_window :: "pyval \<Rightarrow> int \<Rightarrow> pyval" where
  "minus_window (PInt i) w = PInt (i - w)"
| "minus_window (PBool b) w = PInt (of_bool b - w)"
| "minus_window (PFloat (Fin q)) w = PFloat (binary64 (q - round_grid (of_int w)))"
| "minus_window v w = v"

fun max_zero :: "pyval \<Rightarrow> pyval" where
  "max_zero (PInt i) = PInt (max i 0)"
| "max_zero (PFloat x) = (if float_lt x (Fin 0) then PInt 0 else PFloat x)"
| "max_zero v = v"

definition stripped :: "unicode \<Rightarrow> string \<Rightarrow> string \<Rightarrow> bool" where
  "stripped ucd t x \<longleftrightarrow>
     (\<exists>a m b. utf8_chars t = a @ m @ b \<and> x = concat m \<and>
        (\<forall>c \<in> set a. is_space ucd c) \<and> (\<forall>c \<in> set b. is_space ucd c) \<and>
        (m = [] \<or> (\<not> is_space ucd (hd m) \<and> \<not> is_space ucd (last m))))"

text \<open>
  The binary64 numbers: a significand of at most 53 bits and an exponent of the spacing
  from \<open>- 1074\<close> to \<open>971\<close>.
\<close>

definition is_binary64 :: "rat \<Rightarrow> bool" where
  "is_binary64 r \<longleftrightarrow>
     (\<exists>m e. r = of_int m * 2 powi e \<and> \<bar>m\<bar> < 2 ^ 53 \<and> - 1074 \<le> e \<and> e \<le> 971)"

section \<open>A simulated system\<close>

text \<open>
  One concrete system, to run the handlers on: the files that exist, the identifiers
  \<open>uuid4\<close> will give, the return codes of the next external programs with the files
  each leaves, the paths whose removal is refused, and the command lines run so far.
\<close>

record sim =
  sim_files :: "string list"
  sim_uuids :: "string list"
  sim_procs :: "(int \<times> string list) list"
  sim_locked :: "string list"
  sim_log :: "string list list"

definition sim_uuid4 :: "sim \<Rightarrow> string \<times> sim" where
  "sim_uuid4 w =
     (case sim_uuids w of
        [] \<Rightarrow> (''0000'', w)
      | u # us \<Rightarrow> (u, w\<lparr>sim_uuids := us\<rparr>))"

definition sim_listdir :: "string \<Rightarrow> sim \<Rightarrow> exn + string list" where
  "sim_listdir d w = Inr (map (drop (length d + 1)) (filter (prefix (d @ ''/'')) (sim_files w)))"

definition sim_remove :: "string \<Rightarrow> (sim, unit) io" where
  "sim_remove p w =
     (if p \<in> set (sim_locked w) then (Inl (OSError ''[Errno 13] Permission denied''), w)
      else if p \<notin> set (sim_files w)
        then (Inl (FileNotFoundError ''[Errno 2] No such file or directory''), w)
      else (Inr (), w\<lparr>sim_files := removeAll p (sim_files w)\<rparr>))"

definition sim_write :: "string \<Rightarrow> string \<Rightarrow> (sim, unit) io" where
  "sim_write p b w = (Inr (), w\<lparr>sim_files := p # removeAll p (sim_files w)\<rparr>)"

definition sim_run :: "string list \<Rightarrow> (sim, int) io" where
  "sim_run cmd w =
     (case sim_procs w of
        [] \<Rightarrow> (Inr 0, w\<lparr>sim_log := sim_log w @ [cmd]\<rparr>)
      | (rc, fs) # ps \<Rightarrow>
          (Inr rc, w\<lparr>sim_procs := ps, sim_files := fs @ sim_files w,
                     sim_log := sim_log w @ [cmd]\<rparr>))"

definition sim_system :: "sim system" where
  "sim_system =
     \<lparr>BASE_DIR = ''/app'', uuid4 = sim_uuid4, os_listdir = sim_listdir,
      os_path_exists = (\<lambda>p w. p \<in> set (sim_files w)), os_remove = sim_remove,
      write_file = sim_write, run_process = sim_run, float_str = (\<lambda>x. ''0.0''),
      died_with = (\<lambda>rc. ''a signal.'')\<rparr>"

section \<open>A sample of the Unicode tables\<close>

text \<open>
  The tables of the Unicode character database on the ASCII characters and on a few
  others, to run the search on: the letters \<open>A\<close> to \<open>Z\<close>, the Latin capital E with
  acute (U+00C9), the Latin capital I with dot above (U+0130, whose lower case is two
  characters: \<open>i\<close> and the combining dot above, U+0307) and the Greek capitals delta,
  omicron and sigma (U+0394, U+039F, U+03A3) with their lower cases; the case-ignorable
  characters \<^verbatim>\<open>'\<close>, \<^verbatim>\<open>.\<close>, \<^verbatim>\<open>:\<close>, \<^verbatim>\<open>^\<close>, \<^verbatim>\<open>`\<close> and U+0307; the whitespace of ASCII (codes 9
  to 13 and 28 to 32), the next line (U+0085) and the no-break space (U+00A0). Every
  other character is taken as caseless and as no whitespace.
\<close>

definition sample_lower :: "(string \<times> string) list" where
  "sample_lower =
     map (\<lambda>(u, l). ([u], [l])) (zip ''ABCDEFGHIJKLMNOPQRSTUVWXYZ'' ''abcdefghijklmnopqrstuvwxyz'') @
     [([CHR 0xC3, CHR 0x89], [CHR 0xC3, CHR 0xA9]),
      ([CHR 0xC4, CHR 0xB0], [CHR 0x69, CHR 0xCC, CHR 0x87]),
      ([CHR 0xCE, CHR 0x94], [CHR 0xCE, CHR 0xB4]),
      ([CHR 0xCE, CHR 0x9F], [CHR 0xCE, CHR 0xBF]),
      ([CHR 0xCE, CHR 0xA3], [CHR 0xCF, CHR 0x83])]"

definition sample_cased :: "string list" where
  "sample_cased =
     map (\<lambda>c. [c]) ''ABCDEFGHIJKLMNOPQRSTUVWXYZabcdefghijklmnopqrstuvwxyz'' @
     [[CHR 0xC3, CHR 0x89], [CHR 0xC3, CHR 0xA9], [CHR 0xC4, CHR 0xB0],
      [CHR 0xCE, CHR 0x94], [CHR 0xCE, CHR 0xB4], [CHR 0xCE, CHR 0x9F], [CHR 0xCE, CHR 0xBF],
      [CHR 0xCE, CHR 0xA3], [CHR 0xCF, CHR 0x83], [CHR 0xCF, CHR 0x82]]"

definition sample_case_ignorable :: "string list" where
  "sample_case_ignorable =
     [[CHR 0x27], [CHR 0x2E], [CHR 0x3A], [CHR 0x5E], [CHR 0x60], [CHR 0xCC, CHR 0x87]]"

definition sample_space :: "string list" where
  "sample_space =
     [[CHR 0x09], [CHR 0x0A], [CHR 0x0B], [CHR 0x0C], [CHR 0x0D],
      [CHR 0x1C], [CHR 0x1D], [CHR 0x1E], [CHR 0x1F], [CHR 0x20],
      [CHR 0xC2, CHR 0x85], [CHR 0xC2, CHR 0xA0]]"

definition unicode_sample :: unicode where
  "unicode_sample =
     \<lparr>to_lower_full = (\<lambda>c. case map_of sample_lower c of Some l \<Rightarrow> l | None \<Rightarrow> c),
      is_cased = (\<lambda>c. c \<in> set sample_cased),
      is_case_ignorable = (\<lambda>c. c \<in> set sample_case_ignorable),
      is_space = (\<lambda>c. c \<in> set sample_space)\<rparr>"

section \<open>The search: what it returns\<close>

subsection \<open>Characters and bytes\<close>

text \<open>
  On well-formed strings the substring test on the bytes is the substring test on the
  characters, which is Python's (lemma \<open>str_contains_chars\<close>).
\<close>

lemma str_contains_sublist: "str_contains t k \<longleftrightarrow> sublist k t"
  by (induction t) (simp_all add: sublist_Cons_right)

lemma no_continuation:
  "ys = [] \<or> \<not> is_continuation (hd ys) \<Longrightarrow> takeWhile is_continuation ys = [] \<and> dropWhile is_continuation ys = ys"
  by (cases ys) auto

lemma takeWhile_all: "\<forall>x \<in> set xs. P x \<Longrightarrow> takeWhile P xs = xs"
  by simp

lemma utf8_chars_append:
  assumes "ys = [] \<or> \<not> is_continuation (hd ys)"
  shows "utf8_chars (xs @ ys) = utf8_chars xs @ utf8_chars ys"
proof (induction xs rule: utf8_chars.induct)
  case 1
  show ?case by simp
next
  case (2 c cs)
  from assms have n: "takeWhile is_continuation ys = []" "dropWhile is_continuation ys = ys"
    using no_continuation by blast+
  have t: "takeWhile is_continuation (cs @ ys) = takeWhile is_continuation cs"
    by (cases "\<forall>x \<in> set cs. is_continuation x") (simp_all add: takeWhile_append n takeWhile_all)
  have d: "dropWhile is_continuation (cs @ ys) = dropWhile is_continuation cs @ ys"
    by (cases "\<forall>x \<in> set cs. is_continuation x") (simp_all add: dropWhile_append n)
  show ?case using 2 by (simp add: t d)
qed

lemma utf8_chars_nonempty: "c \<in> set (utf8_chars s) \<Longrightarrow> c \<noteq> []"
  by (induction s rule: utf8_chars.induct) auto

lemma utf8_chars_concat: "concat (utf8_chars s) = s"
  by (induction s rule: utf8_chars.induct) simp_all

lemma utf8_chars_Nil_iff [simp]: "utf8_chars s = [] \<longleftrightarrow> s = []"
  by (cases s) simp_all

lemma well_formed_hd:
  assumes "well_formed s" and "s \<noteq> []"
  shows "\<not> is_continuation (hd s)"
proof -
  from assms(2) obtain c cs where s: "s = c # cs" by (cases s) auto
  then have "(c # takeWhile is_continuation cs) \<in> set (utf8_chars s)" by simp
  with assms(1) have "\<not> is_continuation (hd (c # takeWhile is_continuation cs))"
    unfolding well_formed_def by blast
  with s show ?thesis by simp
qed

text \<open>The last character of a well-formed string, with what follows it in another one.\<close>

lemma utf8_chars_snoc:
  assumes "s \<noteq> []"
  shows "\<exists>s' l cs. s = s' @ l # cs \<and> (\<forall>c \<in> set cs. is_continuation c) \<and>
           (l # cs) \<in> set (utf8_chars s)"
  using assms
proof (induction s rule: utf8_chars.induct)
  case 1
  then show ?case by simp
next
  case (2 c cs)
  show ?case
  proof (cases "dropWhile is_continuation cs = []")
    case True
    then have a: "\<forall>x \<in> set cs. is_continuation x" by (simp add: dropWhile_eq_Nil_conv)
    then have "takeWhile is_continuation cs = cs" by (rule takeWhile_all)
    then have "(c # cs) \<in> set (utf8_chars (c # cs))" by (simp only: utf8_chars.simps) simp
    with a have "c # cs = [] @ c # cs \<and> (\<forall>x \<in> set cs. is_continuation x) \<and>
        (c # cs) \<in> set (utf8_chars (c # cs))"
      by simp
    then show ?thesis by blast
  next
    case False
    from "2.IH" [OF False] obtain s' l ds where
      h: "dropWhile is_continuation cs = s' @ l # ds" "\<forall>c \<in> set ds. is_continuation c"
      "(l # ds) \<in> set (utf8_chars (dropWhile is_continuation cs))"
      by blast
    have "c # cs = (c # takeWhile is_continuation cs @ s') @ l # ds"
      using h(1) by (metis append_Cons append_assoc takeWhile_dropWhile_id)
    moreover from h(3) have "(l # ds) \<in> set (utf8_chars (c # cs))" by simp
    ultimately show ?thesis using h(2) by blast
  qed
qed

lemma well_formed_boundary:
  assumes k: "well_formed k" and t: "well_formed t" and eq: "t = p @ k @ s" and k0: "k \<noteq> []"
  shows "s = [] \<or> \<not> is_continuation (hd s)"
proof -
  from utf8_chars_snoc [OF k0] obtain k' l cs where
    h: "k = k' @ l # cs" "\<forall>c \<in> set cs. is_continuation c" "(l # cs) \<in> set (utf8_chars k)"
    by blast
  from k h(3) have l: "\<not> is_continuation l" "length (l # cs) = lead_length l"
    unfolding well_formed_def by auto
  have "t = (p @ k') @ (l # cs @ s)" by (simp add: eq h(1))
  then have "utf8_chars t = utf8_chars (p @ k') @ utf8_chars (l # cs @ s)"
    using l(1) by (simp only: utf8_chars_append list.sel simp_thms)
  then have "(l # takeWhile is_continuation (cs @ s)) \<in> set (utf8_chars t)" by simp
  with t have "length (l # takeWhile is_continuation (cs @ s)) = lead_length l"
    unfolding well_formed_def by fastforce
  with h(2) have "Suc (length cs + length (takeWhile is_continuation s)) = lead_length l"
    by (simp add: takeWhile_append)
  moreover from l(2) have "Suc (length cs) = lead_length l" by simp
  ultimately have "length (takeWhile is_continuation s) = 0" by arith
  then have "takeWhile is_continuation s = []" by simp
  then show ?thesis by (cases s) (auto split: if_splits)
qed

lemma str_contains_chars:
  assumes "well_formed k" and "well_formed t"
  shows "str_contains t k \<longleftrightarrow> sublist (utf8_chars k) (utf8_chars t)"
proof
  assume "str_contains t k"
  then obtain p s where eq: "t = p @ k @ s" by (auto simp: str_contains_sublist sublist_def)
  show "sublist (utf8_chars k) (utf8_chars t)"
  proof (cases "k = []")
    case True
    then show ?thesis by simp
  next
    case False
    have s: "s = [] \<or> \<not> is_continuation (hd s)"
      using assms eq False by (rule well_formed_boundary)
    have ks: "k @ s = [] \<or> \<not> is_continuation (hd (k @ s))"
      using well_formed_hd [OF assms(1) False] False by simp
    have "utf8_chars t = utf8_chars p @ utf8_chars (k @ s)"
      unfolding eq using ks by (rule utf8_chars_append)
    also have "utf8_chars (k @ s) = utf8_chars k @ utf8_chars s"
      using s by (rule utf8_chars_append)
    finally show ?thesis by (auto simp: sublist_def)
  qed
next
  assume "sublist (utf8_chars k) (utf8_chars t)"
  then obtain a b where "utf8_chars t = a @ utf8_chars k @ b" by (auto simp: sublist_def)
  then have "concat (utf8_chars t) = concat a @ concat (utf8_chars k) @ concat b" by simp
  then have "t = concat a @ k @ concat b" by (simp add: utf8_chars_concat)
  then show "str_contains t k" by (auto simp: str_contains_sublist sublist_def)
qed

subsection \<open>The matches\<close>

text \<open>The definitions that a run of the search on the sample unfolds.\<close>

lemma sample_to_lower_full:
  "to_lower_full unicode_sample c = (case map_of sample_lower c of Some l \<Rightarrow> l | None \<Rightarrow> c)"
  by (simp add: unicode_sample_def)

lemma sample_is_cased: "is_cased unicode_sample c \<longleftrightarrow> c \<in> set sample_cased"
  by (simp add: unicode_sample_def)

lemma sample_is_case_ignorable:
  "is_case_ignorable unicode_sample c \<longleftrightarrow> c \<in> set sample_case_ignorable"
  by (simp add: unicode_sample_def)

lemma sample_is_space: "is_space unicode_sample c \<longleftrightarrow> c \<in> set sample_space"
  by (simp add: unicode_sample_def)

lemmas sample_eval =
  str_lower_def str_strip_def sample_to_lower_full sample_is_cased sample_is_case_ignorable
  sample_is_space sample_lower_def sample_cased_def sample_case_ignorable_def sample_space_def
  capital_sigma_def small_sigma_def final_small_sigma_def final_sigma_def is_continuation_def

lemma str_lower_Nil [simp]: "str_lower ucd [] = []"
  by (simp add: str_lower_def)

lemma exn_bind_Inr_iff:
  "exn_bind m f = Inr y \<longleftrightarrow> (\<exists>x. m = Inr x \<and> f x = Inr y)"
  by (cases m) (simp_all add: exn_bind_def)

lemma exn_bind_Inr [simp]: "exn_bind (Inr x) f = f x"
  by (simp add: exn_bind_def)

lemma exn_bind_Inl [simp]: "exn_bind (Inl e) f = Inl e"
  by (simp add: exn_bind_def)

lemma py_lower_Inr: "py_lower ucd v = Inr l \<Longrightarrow> \<exists>t. v = PStr t \<and> l = str_lower ucd t"
  by (cases v) simp_all

lemma search_loop_step:
  assumes "search_loop ucd kw w (seg # segs) acc = Inr res"
  shows "(\<exists>t. map_of seg ''text'' = Some (PStr t) \<and>
           (if sublist kw (str_lower ucd t)
            then \<exists>m. make_match ucd w seg = Inr m \<and> search_loop ucd kw w segs (acc @ [m]) = Inr res
            else search_loop ucd kw w segs acc = Inr res))"
proof -
  from assms obtain tv low where tv: "getitem seg ''text'' = Inr tv"
    and low: "py_lower ucd tv = Inr low"
    and rest: "(if str_contains low kw
       then exn_bind (make_match ucd w seg) (\<lambda>m. search_loop ucd kw w segs (acc @ [m]))
       else search_loop ucd kw w segs acc) = Inr res"
    by (auto simp: exn_bind_Inr_iff)
  from low obtain t where t: "tv = PStr t" "low = str_lower ucd t"
    using py_lower_Inr by blast
  from tv t have "map_of seg ''text'' = Some (PStr t)"
    by (auto simp: getitem_def split: option.splits)
  moreover from rest t have "if sublist kw (str_lower ucd t)
            then \<exists>m. make_match ucd w seg = Inr m \<and> search_loop ucd kw w segs (acc @ [m]) = Inr res
            else search_loop ucd kw w segs acc = Inr res"
    by (auto simp: str_contains_sublist exn_bind_Inr_iff split: if_splits)
  ultimately show ?thesis by blast
qed

lemma search_loop_filter:
  "search_loop ucd (str_lower ucd k) w segs acc = Inr res \<Longrightarrow>
   \<exists>ms. res = acc @ ms \<and>
     list_all2 (\<lambda>seg m. make_match ucd w seg = Inr m) (filter (text_contains ucd k) segs) ms"
proof (induction segs arbitrary: acc)
  case Nil
  then show ?case by simp
next
  case (Cons seg segs)
  from search_loop_step [OF Cons.prems] obtain t where
    t: "map_of seg ''text'' = Some (PStr t)" and
    step: "if sublist (str_lower ucd k) (str_lower ucd t)
            then \<exists>m. make_match ucd w seg = Inr m \<and> search_loop ucd (str_lower ucd k) w segs (acc @ [m]) = Inr res
            else search_loop ucd (str_lower ucd k) w segs acc = Inr res"
    by blast
  show ?case
  proof (cases "sublist (str_lower ucd k) (str_lower ucd t)")
    case True
    with step obtain m where m: "make_match ucd w seg = Inr m"
      and r: "search_loop ucd (str_lower ucd k) w segs (acc @ [m]) = Inr res" by auto
    from Cons.IH [OF r] obtain ms where "res = (acc @ [m]) @ ms"
      "list_all2 (\<lambda>seg m. make_match ucd w seg = Inr m) (filter (text_contains ucd k) segs) ms"
      by blast
    moreover from True t have "text_contains ucd k seg"
      by (simp add: text_contains_def)
    ultimately show ?thesis using m
      by (intro exI [of _ "m # ms"]) simp
  next
    case False
    with step have "search_loop ucd (str_lower ucd k) w segs acc = Inr res" by simp
    moreover from False t have "\<not> text_contains ucd k seg"
      by (simp add: text_contains_def)
    ultimately show ?thesis using Cons.IH [of acc]
      by simp
  qed
qed

lemma make_match_Inr:
  assumes "make_match ucd w seg = Inr m"
  obtains s d st e en fa cs ce tv t where
    "getitem seg ''start'' = Inr s" "py_sub_int s w = Inr d" "py_max0 d = Inr st"
    "getitem seg ''end'' = Inr e" "py_add_int e w = Inr en"
    "py_round2 s = Inr fa" "py_round2 st = Inr cs" "py_round2 en = Inr ce"
    "getitem seg ''text'' = Inr tv" "py_strip ucd tv = Inr t"
    "m = PDict [(''found_at'', fa), (''clip_start'', cs), (''clip_end'', ce), (''text'', PStr t)]"
  using assms unfolding make_match_def exn_bind_Inr_iff by force

lemma is_number_sub: "is_number s \<Longrightarrow> window_fits w s \<Longrightarrow> \<exists>d. py_sub_int s w = Inr d \<and> is_number d \<and> (\<forall>b. d \<noteq> PBool b)"
  by (cases s) auto

lemma is_number_add: "is_number s \<Longrightarrow> window_fits w s \<Longrightarrow> \<exists>d. py_add_int s w = Inr d \<and> is_number d"
  by (cases s) auto

lemma is_number_max0: "is_number d \<Longrightarrow> \<exists>st. py_max0 d = Inr st \<and> is_number st"
  by (cases d) auto

lemma is_number_round2: "is_number d \<Longrightarrow> \<exists>r. py_round2 d = Inr r \<and> is_number r"
  by (cases d) auto

lemma segment_ok_make_match:
  assumes "segment_ok w seg"
  shows "\<exists>m. make_match ucd w seg = Inr m"
proof -
  from assms obtain t s e where
    f: "map_of seg ''text'' = Some (PStr t)" "map_of seg ''start'' = Some s"
       "map_of seg ''end'' = Some e"
    and n: "is_number s" "is_number e" "window_fits w s" "window_fits w e"
    by (auto simp: segment_ok_def split: option.splits pyval.splits)
  from n obtain d where d: "py_sub_int s w = Inr d" "is_number d"
    using is_number_sub by blast
  from d obtain st where st: "py_max0 d = Inr st" "is_number st"
    using is_number_max0 by blast
  from n obtain en where en: "py_add_int e w = Inr en" "is_number en"
    using is_number_add by blast
  from n obtain fa where fa: "py_round2 s = Inr fa" using is_number_round2 by blast
  from st obtain cs where cs: "py_round2 st = Inr cs" using is_number_round2 by blast
  from en obtain ce where ce: "py_round2 en = Inr ce" using is_number_round2 by blast
  show ?thesis
    by (simp add: make_match_def getitem_def f d st en fa cs ce)
qed

lemma segment_ok_text: "segment_ok w seg \<Longrightarrow> \<exists>t. map_of seg ''text'' = Some (PStr t)"
  by (auto simp: segment_ok_def split: option.splits pyval.splits)

lemma search_loop_total:
  "list_all (segment_ok w) segs \<Longrightarrow> \<exists>res. search_loop ucd kw w segs acc = Inr res"
proof (induction segs arbitrary: acc)
  case Nil
  then show ?case by simp
next
  case (Cons seg segs)
  then have ok: "segment_ok w seg" and rest: "list_all (segment_ok w) segs" by simp_all
  from ok obtain t where t: "map_of seg ''text'' = Some (PStr t)"
    using segment_ok_text by blast
  from ok obtain m where m: "make_match ucd w seg = Inr m"
    using segment_ok_make_match by blast
  show ?case
    using Cons.IH [OF rest, of "acc @ [m]"] Cons.IH [OF rest, of acc]
    by (simp add: getitem_def t m)
qed



text \<open>
  Case is Unicode's: the keyword \<^verbatim>\<open>CAF\<close> followed by the capital E with acute is found in
  a text that has it in small letters, and the capital I with dot above, whose lower case
  is two characters, is found by the keyword \<^verbatim>\<open>i\<close>.
\<close>

lemma search_keyword_unicode_example:
  "search_keyword unicode_sample
     \<lparr>segments =
        [[(''text'', PStr (''un caf'' @ [CHR 0xC3, CHR 0xA9])), (''start'', PInt 1), (''end'', PInt 2)],
         [(''text'', PStr ''tea''), (''start'', PInt 3), (''end'', PInt 4)]],
      keyword = ''CAF'' @ [CHR 0xC3, CHR 0x89], window = 1\<rparr>
   = Inr (PDict [(''keyword'', PStr (''CAF'' @ [CHR 0xC3, CHR 0x89])),
        (''matches'', PList [PDict [(''found_at'', PInt 1), (''clip_start'', PInt 0),
            (''clip_end'', PInt 3), (''text'', PStr (''un caf'' @ [CHR 0xC3, CHR 0xA9]))]])]) \<and>
   str_lower unicode_sample [CHR 0xC4, CHR 0xB0] = [CHR 0x69, CHR 0xCC, CHR 0x87] \<and>
   text_contains unicode_sample ''i'' [(''text'', PStr [CHR 0xC4, CHR 0xB0])]"
  by (simp add: search_keyword_def make_match_def getitem_def text_contains_def
      str_contains_sublist [symmetric] sample_eval Let_def)


lemma list_all2_in_left:
  "list_all2 P xs ys \<Longrightarrow> x \<in> set xs \<Longrightarrow> \<exists>y \<in> set ys. P x y"
  by (induction rule: list_all2_induct) auto

lemma matches_of_response [simp]:
  "matches_of (PDict [(''keyword'', k), (''matches'', PList ms)]) = ms"
  by (simp add: matches_of_def)

lemma make_match_ints:
  assumes "map_of seg ''text'' = Some (PStr t)"
    and "map_of seg ''start'' = Some (PInt s)"
    and "map_of seg ''end'' = Some (PInt e)"
  shows "make_match ucd w seg =
           Inr (PDict [(''found_at'', PInt s), (''clip_start'', PInt (max (s - w) 0)),
                       (''clip_end'', PInt (e + w)), (''text'', PStr (str_strip ucd t))])"
  using assms by (simp add: make_match_def getitem_def max_def)

lemma make_match_floats:
  assumes "map_of seg ''text'' = Some (PStr t)"
    and "map_of seg ''start'' = Some (PFloat x)"
    and "map_of seg ''end'' = Some (PFloat y)"
    and "float_of_int w = Some fw"
  shows "make_match ucd w seg =
           Inr (PDict [(''found_at'', PFloat (float_round2 x)),
                       (''clip_start'',
                          if float_lt (float_sub x fw) (Fin 0) then PInt 0
                          else PFloat (float_round2 (float_sub x fw))),
                       (''clip_end'', PFloat (float_round2 (float_add y fw))),
                       (''text'', PStr (str_strip ucd t))])"
  using assms by (simp add: make_match_def getitem_def)



lemma search_loop_Inr_texts:
  "search_loop ucd kw w segs acc = Inr res \<Longrightarrow> seg \<in> set segs \<Longrightarrow>
     \<exists>t. map_of seg ''text'' = Some (PStr t) \<and>
        (sublist kw (str_lower ucd t) \<longrightarrow> (\<exists>m. make_match ucd w seg = Inr m))"
proof (induction segs arbitrary: acc)
  case Nil
  then show ?case by simp
next
  case (Cons a segs)
  from search_loop_step [OF Cons.prems(1)] obtain t where
    t: "map_of a ''text'' = Some (PStr t)" and
    step: "if sublist kw (str_lower ucd t)
            then \<exists>m. make_match ucd w a = Inr m \<and> search_loop ucd kw w segs (acc @ [m]) = Inr res
            else search_loop ucd kw w segs acc = Inr res"
    by blast
  show ?case
  proof (cases "seg = a")
    case True
    with t step show ?thesis by (auto split: if_splits)
  next
    case False
    with Cons.prems have "seg \<in> set segs" by simp
    with step Cons.IH show ?thesis by (auto split: if_splits)
  qed
qed

lemma make_match_keys:
  "make_match ucd w seg = Inr m \<Longrightarrow> map_of seg ''start'' \<noteq> None \<and> map_of seg ''end'' \<noteq> None"
  by (erule make_match_Inr) (auto simp: getitem_def split: option.splits)

text \<open>
  Claim C9. The search returns only when every segment has the three keys: if some
  segment lacks one of them, the search with the empty keyword (which matches every
  text) raises, for every window; if some segment lacks \<open>text\<close>, the search raises
  for every keyword.
\<close>

theorem search_keyword_needs_keys:
  "((\<exists>seg \<in> set (segments data). \<not> has_keys seg) \<longrightarrow>
      (\<exists>e. search_keyword ucd (data\<lparr>keyword := []\<rparr>) = Inl e)) \<and>
   ((\<exists>seg \<in> set (segments data). map_of seg ''text'' = None) \<longrightarrow>
      (\<exists>e. search_keyword ucd data = Inl e))"
proof (intro conjI impI)
  assume "\<exists>seg \<in> set (segments data). \<not> has_keys seg"
  then obtain seg where seg: "seg \<in> set (segments data)" "\<not> has_keys seg" by blast
  show "\<exists>e. search_keyword ucd (data\<lparr>keyword := []\<rparr>) = Inl e"
  proof (cases "search_keyword ucd (data\<lparr>keyword := []\<rparr>)")
    case (Inl e)
    then show ?thesis by blast
  next
    case (Inr r)
    then obtain res where "search_loop ucd [] (window data) (segments data) [] = Inr res"
      by (auto simp: search_keyword_def exn_bind_Inr_iff)
    from search_loop_Inr_texts [OF this seg(1)] have "has_keys seg"
      using make_match_keys by (auto simp: has_keys_def)
    with seg show ?thesis by simp
  qed
next
  assume "\<exists>seg \<in> set (segments data). map_of seg ''text'' = None"
  then obtain seg where seg: "seg \<in> set (segments data)" "map_of seg ''text'' = None" by blast
  show "\<exists>e. search_keyword ucd data = Inl e"
  proof (cases "search_keyword ucd data")
    case (Inl e)
    then show ?thesis by blast
  next
    case (Inr r)
    then obtain res where
      "search_loop ucd (str_lower ucd (keyword data)) (window data) (segments data) [] = Inr res"
      by (auto simp: search_keyword_def Let_def exn_bind_Inr_iff)
    from search_loop_Inr_texts [OF this seg(1)] seg(2) show ?thesis by simp
  qed
qed

theorem search_keyword_needs_keys_witness:
  "search_keyword unicode_sample
     \<lparr>segments = [[(''start'', PInt 1), (''end'', PInt 2)]], keyword = ''a'', window = 7\<rparr>
     = Inl (KeyError ''text'') \<and>
   search_keyword unicode_sample
     \<lparr>segments = [[(''text'', PStr ''abc''), (''end'', PInt 2)]], keyword = [], window = 7\<rparr>
     = Inl (KeyError ''start'') \<and>
   search_keyword unicode_sample
     \<lparr>segments = [[(''text'', PStr ''abc''), (''start'', PInt 1)]], keyword = [], window = 7\<rparr>
     = Inl (KeyError ''end'') \<and>
   (\<exists>e. search_keyword unicode_sample
     \<lparr>segments = [[(''text'', PStr ''abc''), (''start'', PInt 1), (''end'', PInt 2)],
                  [(''text'', PStr ''abc''), (''start'', PInt 1)]],
      keyword = [], window = 7\<rparr> = Inl e)"
proof -
  have "\<exists>seg \<in> set [[(''text'', PStr ''abc''), (''start'', PInt 1), (''end'', PInt 2)],
                  [(''text'', PStr ''abc''), (''start'', PInt 1)]]. \<not> has_keys seg"
    by (simp add: has_keys_def)
  with search_keyword_needs_keys [of
      "\<lparr>segments = [[(''text'', PStr ''abc''), (''start'', PInt 1), (''end'', PInt 2)],
                  [(''text'', PStr ''abc''), (''start'', PInt 1)]],
      keyword = [], window = 7\<rparr>" unicode_sample]
  have "\<exists>e. search_keyword unicode_sample
     \<lparr>segments = [[(''text'', PStr ''abc''), (''start'', PInt 1), (''end'', PInt 2)],
                  [(''text'', PStr ''abc''), (''start'', PInt 1)]],
      keyword = [], window = 7\<rparr> = Inl e"
    by simp
  then show ?thesis
    by (simp add: search_keyword_def make_match_def getitem_def sample_eval)
qed

section \<open>Rounding to binary64\<close>

lemma rhe_cases:
  "round_half_even q = \<lfloor>q\<rfloor> \<or> round_half_even q = \<lfloor>q\<rfloor> + 1"
  by (simp add: round_half_even_def Let_def)

lemma rhe_of_int [simp]: "round_half_even (of_int n) = n"
  by (simp add: round_half_even_def)

lemma rhe_ge_floor: "\<lfloor>q\<rfloor> \<le> round_half_even q"
  using rhe_cases [of q] by auto

lemma rhe_le_floor1: "round_half_even q \<le> \<lfloor>q\<rfloor> + 1"
  using rhe_cases [of q] by auto

lemma rhe_mono:
  assumes "a \<le> b"
  shows "round_half_even a \<le> round_half_even b"
proof (cases "\<lfloor>a\<rfloor> = \<lfloor>b\<rfloor>")
  case True
  with assms have "a - of_int \<lfloor>a\<rfloor> \<le> b - of_int \<lfloor>b\<rfloor>" by simp
  with True show ?thesis
    by (auto simp: round_half_even_def Let_def)
next
  case False
  with assms have "\<lfloor>a\<rfloor> < \<lfloor>b\<rfloor>"
    using floor_mono [of a b] by linarith
  with rhe_le_floor1 [of a] rhe_ge_floor [of b] show ?thesis by linarith
qed

lemma rhe_le_int: "q \<le> of_int n \<Longrightarrow> round_half_even q \<le> n"
  using rhe_mono [of q "of_int n"] by simp

lemma rhe_ge_int: "of_int n \<le> q \<Longrightarrow> n \<le> round_half_even q"
  using rhe_mono [of "of_int n" q] by simp

lemma rhe_minus: "round_half_even (- q) = - round_half_even q"
proof (cases "q = of_int \<lfloor>q\<rfloor>")
  case True
  then obtain n where "q = of_int n" ..
  then show ?thesis by (simp flip: of_int_minus)
next
  case False
  then have fl: "\<lfloor>- q\<rfloor> = - \<lfloor>q\<rfloor> - 1"
    by (metis Ints_of_int ceiling_def diff_minus_eq_add floor_minus minus_diff_eq
        minus_add_cancel neg_equal_iff_equal of_int_floor_cancel floor_eq_iff ceiling_altdef
        add.commute uminus_add_conv_diff)
  define f where "f = \<lfloor>q\<rfloor>"
  define d where "d = q - of_int f"
  have q: "q = of_int f + d" by (simp add: d_def)
  have fl': "\<lfloor>- q\<rfloor> = - f - 1" using fl by (simp add: f_def)
  have d': "- q - of_int (- f - 1) = 1 - d" by (simp add: d_def)
  have par: "even (- f - 1) \<longleftrightarrow> odd f" by simp
  have l: "round_half_even (- q) =
      (if 1 - d < 1 / 2 then - f - 1 else if 1 / 2 < 1 - d then - f else if odd f then - f - 1 else - f)"
    unfolding round_half_even_def Let_def fl' d' par by simp
  have r: "round_half_even q =
      (if d < 1 / 2 then f else if 1 / 2 < d then f + 1 else if even f then f else f + 1)"
    unfolding round_half_even_def Let_def f_def [symmetric] d_def [symmetric] by simp
  show ?thesis unfolding l r by auto
qed

lemma bitlen_bounds_rat:
  assumes "0 < n"
  shows "(2::rat) powi (bitlen n - 1) \<le> of_int n" and "of_int n < (2::rat) powi bitlen n"
proof -
  from assms have b1: "1 \<le> bitlen n" by (auto simp: bitlen_alt_def)
  from bitlen_bounds [OF assms] have lo: "2 ^ nat (bitlen n - 1) \<le> n" and hi: "n < 2 ^ nat (bitlen n)"
    by simp_all
  have "(2::rat) powi (bitlen n - 1) = of_int (2 ^ nat (bitlen n - 1))"
    using b1 by (simp add: power_int_nonneg_exp)
  also have "\<dots> \<le> of_int n" using lo by (simp only: of_int_le_iff)
  finally show "(2::rat) powi (bitlen n - 1) \<le> of_int n" .
  have "(of_int n :: rat) < of_int (2 ^ nat (bitlen n))" using hi by (simp only: of_int_less_iff)
  also have "\<dots> = 2 powi bitlen n"
    using b1 by (simp add: power_int_nonneg_exp)
  finally show "of_int n < (2::rat) powi bitlen n" .
qed

lemma ilog2_bounds:
  assumes "0 < q"
  shows "2 powi ilog2 q \<le> q" and "q < 2 powi (ilog2 q + 1)"
proof -
  obtain n d where nd: "quotient_of q = (n, d)" by (cases "quotient_of q")
  then have d: "0 < d" by (rule quotient_of_denom_pos)
  from nd have q: "q = of_int n / of_int d" by (rule quotient_of_div)
  with assms d have n: "0 < n" by (simp add: zero_less_divide_iff)
  define e where "e = bitlen n - bitlen d"
  have dpos: "(0::rat) < of_int d" using d by simp
  have "q < 2 powi bitlen n / 2 powi (bitlen d - 1)"
    unfolding q using bitlen_bounds_rat [OF n] bitlen_bounds_rat [OF d] dpos n
    by (intro frac_less) simp_all
  also have "\<dots> = 2 powi (e + 1)"
    by (simp add: e_def power_int_diff [symmetric] algebra_simps)
  finally have hi: "q < 2 powi (e + 1)" .
  have "2 powi (bitlen n - 1) / 2 powi bitlen d < q"
    unfolding q using bitlen_bounds_rat [OF n] bitlen_bounds_rat [OF d] dpos n
    by (intro frac_less2) simp_all
  moreover have "2 powi (bitlen n - 1) / 2 powi bitlen d = (2::rat) powi (e - 1)"
    by (simp add: e_def power_int_diff [symmetric] algebra_simps)
  ultimately have lo: "2 powi (e - 1) < q" by simp
  have il: "ilog2 q = (if 2 powi e \<le> q then e else e - 1)"
    by (simp add: ilog2_def nd e_def Let_def)
  show "2 powi ilog2 q \<le> q" using lo by (simp add: il)
  show "q < 2 powi (ilog2 q + 1)" using hi by (auto simp: il not_le)
qed

lemma pow2_less_imp: "(2::rat) powi a < 2 powi b \<Longrightarrow> a < b"
  using power_int_increasing [of b a "2::rat"] by (cases "a < b") auto

lemma pow2_le_imp: "(2::rat) powi a \<le> 2 powi b \<Longrightarrow> a \<le> b"
  using power_int_strict_increasing [of b a "2::rat"] by (cases "a \<le> b") auto

lemma ilog2_unique:
  assumes "2 powi e \<le> q" and "q < 2 powi (e + 1)"
  shows "ilog2 q = e"
proof -
  have pos: "0 < q" using assms(1) by (rule less_le_trans [rotated]) simp
  from ilog2_bounds [OF pos] assms
  have "(2::rat) powi e < 2 powi (ilog2 q + 1)" "(2::rat) powi ilog2 q < 2 powi (e + 1)"
    by linarith+
  then have "e < ilog2 q + 1" "ilog2 q < e + 1"
    by (auto dest: pow2_less_imp)
  then show ?thesis by simp
qed

lemma grid_gexp: "grid q = 2 powi gexp q"
  by (simp add: grid_def gexp_def)

lemma grid_pos [simp]: "0 < grid q"
  by (simp add: grid_def)

lemma grid_minus [simp]: "grid (- q) = grid q"
  by (simp add: grid_def)

lemma round_grid_minus: "round_grid (- q) = - round_grid q"
  by (simp add: round_grid_def rhe_minus)

lemma rhe_0 [simp]: "round_half_even 0 = 0"
  by (simp add: round_half_even_def)

lemma grid_nonneg [simp]: "0 \<le> grid q"
  by (simp add: grid_def)

lemma grid_not_neg [simp]: "\<not> grid q < 0"
  by (simp add: not_less)

lemma grid_neq_0 [simp]: "grid q \<noteq> 0"
  by (simp add: grid_def)

lemma round_grid_0 [simp]: "round_grid 0 = 0"
  by (simp add: round_grid_def)

lemma round_grid_nonneg: "0 \<le> q \<Longrightarrow> 0 \<le> round_grid q"
proof -
  assume "0 \<le> q"
  then have "of_int 0 \<le> q / grid q" by simp
  then have "0 \<le> round_half_even (q / grid q)" by (rule rhe_ge_int)
  then show ?thesis by (simp add: round_grid_def)
qed

lemma pow2_nonneg_int: "0 \<le> k \<Longrightarrow> (2::rat) powi k = of_int (2 ^ nat k)"
  by (simp add: power_int_nonneg_exp)

lemma ilog2_mono:
  assumes "0 < a" and "a \<le> b"
  shows "ilog2 a \<le> ilog2 b"
proof -
  from assms have b: "0 < b" by simp
  from ilog2_bounds(1) [OF assms(1)] ilog2_bounds(2) [OF b] assms(2)
  have "(2::rat) powi ilog2 a < 2 powi (ilog2 b + 1)" by linarith
  then show ?thesis by (auto dest: pow2_less_imp)
qed

lemma round_grid_le_pow2:
  assumes "0 < a" and "a \<le> 2 powi k" and "gexp a \<le> k"
  shows "round_grid a \<le> 2 powi k"
proof -
  define N :: int where "N = 2 ^ nat (k - gexp a)"
  have N: "(of_int N :: rat) = 2 powi (k - gexp a)"
    using assms(3) by (simp add: N_def pow2_nonneg_int)
  have "a / grid a \<le> 2 powi k / grid a"
    using assms(2) by (simp add: divide_le_cancel)
  moreover have "2 powi k / grid a = 2 powi (k - gexp a)"
    by (simp add: grid_gexp power_int_diff)
  ultimately have "a / grid a \<le> of_int N"
    using N by simp
  then have "round_half_even (a / grid a) \<le> N"
    by (rule rhe_le_int)
  then have "(of_int (round_half_even (a / grid a)) :: rat) \<le> of_int N"
    by (simp only: of_int_le_iff)
  then have "round_grid a \<le> of_int N * grid a"
    unfolding round_grid_def by (intro mult_right_mono) simp_all
  moreover have "of_int N * grid a = 2 powi k"
    unfolding N by (simp add: grid_gexp power_int_add [symmetric])
  ultimately show ?thesis by simp
qed

lemma round_grid_ge_pow2:
  assumes "0 < a" and "2 powi k \<le> a" and "gexp a \<le> k"
  shows "2 powi k \<le> round_grid a"
proof -
  define N :: int where "N = 2 ^ nat (k - gexp a)"
  have N: "(of_int N :: rat) = 2 powi (k - gexp a)"
    using assms(3) by (simp add: N_def pow2_nonneg_int)
  have "2 powi k / grid a \<le> a / grid a"
    using assms(2) by (simp add: divide_le_cancel)
  moreover have "2 powi k / grid a = 2 powi (k - gexp a)"
    by (simp add: grid_gexp power_int_diff)
  ultimately have "of_int N \<le> a / grid a"
    using N by simp
  then have "N \<le> round_half_even (a / grid a)"
    by (rule rhe_ge_int)
  then have "(of_int N :: rat) \<le> of_int (round_half_even (a / grid a))"
    by (simp only: of_int_le_iff)
  then have "of_int N * grid a \<le> round_grid a"
    unfolding round_grid_def by (intro mult_right_mono) simp_all
  moreover have "of_int N * grid a = 2 powi k"
    unfolding N by (simp add: grid_gexp power_int_add [symmetric])
  ultimately show ?thesis by simp
qed

lemma round_grid_mono_pos:
  assumes "0 < a" and "a \<le> b"
  shows "round_grid a \<le> round_grid b"
proof -
  from assms have b: "0 < b" by simp
  have il: "ilog2 a \<le> ilog2 b" using assms by (rule ilog2_mono)
  have ge: "gexp a \<le> gexp b"
    using il assms b by (simp add: gexp_def)
  show ?thesis
  proof (cases "gexp a = gexp b")
    case True
    then have g: "grid a = grid b" by (simp add: grid_gexp)
    have "a / grid b \<le> b / grid b" using assms(2) by (simp add: divide_le_cancel)
    then have "round_half_even (a / grid b) \<le> round_half_even (b / grid b)"
      by (rule rhe_mono)
    then show ?thesis
      unfolding round_grid_def g by (simp add: mult_right_mono)
  next
    case False
    with ge have lt: "gexp a < gexp b" by simp
    then have eb: "gexp b = ilog2 b - 52" and ab: "ilog2 a < ilog2 b"
      using assms b by (auto simp: gexp_def max_def split: if_splits)
    let ?k = "ilog2 b"
    have "a < 2 powi (ilog2 a + 1)" using assms(1) by (rule ilog2_bounds)
    also have "\<dots> \<le> 2 powi ?k" using ab by (intro power_int_increasing) simp_all
    finally have "a \<le> 2 powi ?k" by simp
    moreover have "gexp a \<le> ?k" using lt eb by simp
    ultimately have 1: "round_grid a \<le> 2 powi ?k"
      using assms(1) by (intro round_grid_le_pow2)
    have "2 powi ?k \<le> b" using b by (rule ilog2_bounds)
    moreover have "gexp b \<le> ?k" using eb by simp
    ultimately have 2: "2 powi ?k \<le> round_grid b"
      using b by (intro round_grid_ge_pow2)
    from 1 2 show ?thesis by simp
  qed
qed

lemma round_grid_mono:
  assumes "a \<le> b"
  shows "round_grid a \<le> round_grid b"
proof -
  consider "0 < a" | "a \<le> 0" "0 \<le> b" | "b < 0" by linarith
  then show ?thesis
  proof cases
    case 1
    then show ?thesis using assms by (rule round_grid_mono_pos)
  next
    case 2
    then have "round_grid a \<le> 0"
      using round_grid_nonneg [of "- a"] by (simp add: round_grid_minus)
    moreover have "0 \<le> round_grid b" using 2 by (intro round_grid_nonneg)
    ultimately show ?thesis by simp
  next
    case 3
    then have "round_grid (- b) \<le> round_grid (- a)"
      using assms by (intro round_grid_mono_pos) simp_all
    then show ?thesis by (simp add: round_grid_minus)
  qed
qed

lemma round_grid_fixed:
  assumes "q = of_int m * 2 powi k" and "gexp q \<le> k"
  shows "round_grid q = q"
proof -
  define N :: int where "N = m * 2 ^ nat (k - gexp q)"
  have "q / grid q = of_int m * (2 powi k / 2 powi gexp q)"
    by (simp add: assms(1) grid_gexp)
  also have "2 powi k / 2 powi gexp q = (2::rat) powi (k - gexp q)"
    by (simp add: power_int_diff)
  also have "\<dots> = of_int (2 ^ nat (k - gexp q))"
    using assms(2) by (simp add: pow2_nonneg_int)
  finally have "q / grid q = of_int N"
    by (simp add: N_def)
  then have "round_grid q = (q / grid q) * grid q"
    by (simp add: round_grid_def)
  then show ?thesis by simp
qed

lemma ilog2_less:
  assumes "0 < x" and "x < 2 powi K"
  shows "ilog2 x < K"
proof -
  from ilog2_bounds(1) [OF assms(1)] assms(2) have "(2::rat) powi ilog2 x < 2 powi K" by simp
  then show ?thesis by (rule pow2_less_imp)
qed

lemma ilog2_ge:
  assumes "2 powi K \<le> x"
  shows "K \<le> ilog2 x"
proof -
  have pos: "0 < x" using assms by (rule less_le_trans [rotated]) simp
  from ilog2_bounds(2) [OF pos] assms have "(2::rat) powi K < 2 powi (ilog2 x + 1)" by simp
  then have "K < ilog2 x + 1" by (rule pow2_less_imp)
  then show ?thesis by simp
qed

lemma ilog2_pow2 [simp]: "ilog2 (2 powi K) = K"
  by (rule ilog2_unique) (simp_all add: power_int_strict_increasing)

lemma gexp_ge: "- 1074 \<le> gexp q"
  by (simp add: gexp_def)

lemma abs_less_gexp:
  assumes "q \<noteq> 0"
  shows "\<bar>q\<bar> < 2 powi (gexp q + 53)"
proof -
  from assms have "0 < \<bar>q\<bar>" by simp
  then have "\<bar>q\<bar> < 2 powi (ilog2 \<bar>q\<bar> + 1)" by (rule ilog2_bounds)
  also have "\<dots> \<le> 2 powi (gexp q + 53)"
    by (intro power_int_increasing) (simp_all add: gexp_def)
  finally show ?thesis .
qed

lemma round_grid_abs_le: "\<bar>round_grid q\<bar> \<le> 2 powi (gexp q + 53)"
proof (cases "q = 0")
  case True
  then show ?thesis by simp
next
  case False
  have le: "round_grid x \<le> 2 powi (gexp x + 53)" if "0 < x" for x
    using that abs_less_gexp [of x] by (intro round_grid_le_pow2) simp_all
  show ?thesis
  proof (cases "0 < q")
    case True
    with le [of q] round_grid_nonneg [of q] show ?thesis by simp
  next
    case neg: False
    with False have "0 < - q" by simp
    from le [OF this] round_grid_nonneg [of "- q"] neg
    show ?thesis by (simp add: round_grid_minus gexp_def)
  qed
qed

lemma round_grid_fixed_abs:
  assumes "\<bar>r\<bar> = of_int m * 2 powi k" and "- 1074 \<le> k" and "\<bar>r\<bar> \<le> 2 powi (k + 53)"
  shows "round_grid r = r"
proof -
  have pos: "round_grid x = x"
    if x: "x = of_int m * 2 powi k" "0 < x" "x \<le> 2 powi (k + 53)" for x
  proof (cases "x = 2 powi (k + 53)")
    case True
    have "gexp x = k + 1"
      using assms(2) by (simp add: True gexp_def)
    then show ?thesis
      using round_grid_fixed [of x 1 "k + 53"] True by simp
  next
    case False
    with x have "x < 2 powi (k + 53)" by simp
    with x(2) have "ilog2 x < k + 53" by (rule ilog2_less)
    then have "gexp x \<le> k" using assms(2) x(2) by (simp add: gexp_def)
    with x(1) show ?thesis by (rule round_grid_fixed)
  qed
  consider "r = 0" | "0 < r" | "r < 0" by linarith
  then show ?thesis
  proof cases
    case 1
    then show ?thesis by simp
  next
    case 2
    with assms pos [of r] show ?thesis by simp
  next
    case 3
    with assms pos [of "- r"] have "round_grid (- r) = - r" by simp
    then show ?thesis by (simp add: round_grid_minus)
  qed
qed

lemma round_grid_idem: "round_grid (round_grid q) = round_grid q"
proof -
  define M where "M = round_half_even (q / grid q)"
  have r: "round_grid q = of_int M * 2 powi gexp q"
    by (simp add: round_grid_def M_def grid_gexp)
  have "\<bar>round_grid q\<bar> = of_int \<bar>M\<bar> * 2 powi gexp q"
    unfolding r by (simp add: abs_mult)
  then show ?thesis
    using gexp_ge round_grid_abs_le by (rule round_grid_fixed_abs)
qed

lemma round_grid_of_int:
  assumes "\<bar>n\<bar> \<le> 2 ^ 53"
  shows "round_grid (of_int n) = of_int n"
proof (rule round_grid_fixed_abs [of _ "\<bar>n\<bar>" 0])
  show "\<bar>rat_of_int n\<bar> = rat_of_int \<bar>n\<bar> * 2 powi 0" by simp
  show "- 1074 \<le> (0::int)" by simp
  have "(of_int \<bar>n\<bar> :: rat) \<le> of_int (2 ^ 53)" using assms by (simp only: of_int_le_iff)
  then show "\<bar>rat_of_int n\<bar> \<le> 2 powi (0 + 53)" by simp
qed

lemma round_grid_integer:
  assumes "round_grid q = q" and "2 ^ 52 \<le> \<bar>q\<bar>"
  shows "\<exists>n. q = of_int n"
proof -
  have "(2::rat) powi 52 \<le> \<bar>q\<bar>" using assms(2) by simp
  then have "52 \<le> ilog2 \<bar>q\<bar>" by (rule ilog2_ge)
  then have g: "0 \<le> gexp q" by (simp add: gexp_def)
  have "q = of_int (round_half_even (q / grid q)) * 2 powi gexp q"
    using assms(1) by (simp add: round_grid_def grid_gexp)
  also have "\<dots> = of_int (round_half_even (q / grid q) * 2 ^ nat (gexp q))"
    using g by (simp add: pow2_nonneg_int)
  finally show ?thesis by blast
qed

lemma overflow_pos [simp]: "0 < overflow"
  by (simp add: overflow_def del: power_int_numeral)

lemma overflow_gt: "2 ^ 53 < overflow"
proof -
  have "(2::rat) powi 53 < 2 powi 1024" by (rule power_int_strict_increasing) simp_all
  then show ?thesis by (simp add: overflow_def del: power_int_numeral) simp
qed

lemma binary64_not_NaN [simp]: "binary64 q \<noteq> NaN"
  by (simp add: binary64_def Let_def)

lemma binary64_Fin: "binary64 q = Fin r \<Longrightarrow> r = round_grid q \<and> r < overflow \<and> - overflow < r"
  by (auto simp: binary64_def Let_def split: if_splits)

lemma binary64_FinI:
  "round_grid q < overflow \<Longrightarrow> - overflow < round_grid q \<Longrightarrow> binary64 q = Fin (round_grid q)"
  by (auto simp: binary64_def Let_def)

lemma float_le_refl: "x \<noteq> NaN \<Longrightarrow> float_le x x"
  by (cases x) simp_all

lemma float_le_trans: "float_le x y \<Longrightarrow> float_le y z \<Longrightarrow> float_le x z"
  by (cases x; cases y; cases z) simp_all

lemma float_le_NaN [simp]: "\<not> float_le x NaN" "\<not> float_le NaN x"
  by (cases x; simp)+

lemma binary64_mono:
  assumes "a \<le> b"
  shows "float_le (binary64 a) (binary64 b)"
proof -
  have "round_grid a \<le> round_grid b" using assms by (rule round_grid_mono)
  moreover have "- overflow < overflow" using overflow_pos by linarith
  ultimately show ?thesis
    by (auto simp: binary64_def Let_def)
qed

lemma binary64_idem:
  assumes "binary64 q = Fin r"
  shows "binary64 r = Fin r"
proof -
  from binary64_Fin [OF assms] have r: "r = round_grid q" "r < overflow" "- overflow < r"
    by simp_all
  have "round_grid r = r" unfolding r(1) by (rule round_grid_idem)
  with binary64_FinI [of r] r show ?thesis by simp
qed

lemma binary64_0 [simp]: "binary64 0 = Fin 0"
  using binary64_FinI [of 0] by simp

lemma binary64_of_int:
  assumes "\<bar>n\<bar> \<le> 2 ^ 53"
  shows "binary64 (of_int n) = Fin (of_int n)"
proof -
  have r: "round_grid (of_int n) = of_int n" using assms by (rule round_grid_of_int)
  have "(of_int \<bar>n\<bar> :: rat) \<le> of_int (2 ^ 53)" using assms by (simp only: of_int_le_iff)
  then have "\<bar>rat_of_int n\<bar> \<le> 2 ^ 53" by simp
  with overflow_gt have "\<bar>rat_of_int n\<bar> < overflow" by linarith
  then show ?thesis
    using binary64_FinI [of "of_int n"] unfolding r by (simp add: abs_less_iff)
qed

lemma binary64_nonneg: "0 \<le> q \<Longrightarrow> float_le (Fin 0) (binary64 q)"
  using binary64_mono [of 0 q] by simp

lemma float_round2_Fin: "float_round2 (Fin q) = binary64 (round2_rat q)"
  by (simp add: round2_rat_def)

lemma round2_rat_mono: "a \<le> b \<Longrightarrow> round2_rat a \<le> round2_rat b"
  unfolding round2_rat_def using rhe_mono [of "a * 100" "b * 100"] by (simp add: divide_right_mono)

lemma round2_rat_of_int [simp]: "round2_rat (of_int n) = of_int n"
proof -
  have "rat_of_int n * 100 = of_int (n * 100)" by simp
  then have "round_half_even (rat_of_int n * 100) = n * 100" by (simp only: rhe_of_int)
  then show ?thesis by (simp add: round2_rat_def)
qed

lemma float_round2_not_NaN: "x \<noteq> NaN \<Longrightarrow> float_round2 x \<noteq> NaN"
  by (cases x) simp_all

lemma float_le_PosInf: "x \<noteq> NaN \<Longrightarrow> float_le x PosInf"
  by (cases x) simp_all

lemma float_le_NegInf: "y \<noteq> NaN \<Longrightarrow> float_le NegInf y"
  by (cases y) simp_all

lemma float_le_not_NaN: "float_le x y \<Longrightarrow> x \<noteq> NaN \<and> y \<noteq> NaN"
  by (cases x; cases y) simp_all

lemma float_round2_mono:
  assumes "float_le x y"
  shows "float_le (float_round2 x) (float_round2 y)"
proof -
  from assms have nn: "float_round2 x \<noteq> NaN" "float_round2 y \<noteq> NaN"
    using float_le_not_NaN float_round2_not_NaN by blast+
  consider "y = PosInf" | "x = NegInf" | a b where "x = Fin a" "y = Fin b" "a \<le> b"
    using assms by (cases x; cases y) simp_all
  then show ?thesis
  proof cases
    case 1
    then have "float_round2 y = PosInf" by simp
    with nn show ?thesis by (simp add: float_le_PosInf)
  next
    case 2
    then have "float_round2 x = NegInf" by simp
    with nn show ?thesis by (simp add: float_le_NegInf)
  next
    case 3
    then have "float_le (binary64 (round2_rat a)) (binary64 (round2_rat b))"
      by (intro binary64_mono round2_rat_mono)
    then show ?thesis using 3 by (simp only: float_round2_Fin)
  qed
qed

lemma float_round2_nonneg: "float_le (Fin 0) y \<Longrightarrow> float_le (Fin 0) (float_round2 y)"
  using float_round2_mono [of "Fin 0" y] by (simp add: round2_rat_def)

lemma is_double_round_grid: "binary64 q = Fin q \<Longrightarrow> round_grid q = q"
  by (auto dest: binary64_Fin)

lemma round2_rat_large:
  assumes "binary64 q = Fin q" and "2 ^ 52 \<le> \<bar>q\<bar>"
  shows "float_round2 (Fin q) = Fin q"
proof -
  from assms obtain n where "q = of_int n"
    using round_grid_integer [of q] is_double_round_grid by blast
  then have "round2_rat q = q" by simp
  with assms(1) show ?thesis by (simp only: float_round2_Fin)
qed

lemma int_le_float_round2:
  assumes "0 \<le> n" and "binary64 q = Fin q" and "of_int n \<le> q"
  shows "float_le (Fin (of_int n)) (float_round2 (Fin q))"
proof (cases "2 ^ 52 \<le> \<bar>q\<bar>")
  case True
  with assms show ?thesis by (simp add: round2_rat_large del: float_round2.simps)
next
  case False
  with assms(3) have "rat_of_int n < of_int (2 ^ 52)" by simp
  then have "n < 2 ^ 52" by (simp only: of_int_less_iff)
  with assms(1) have "\<bar>n\<bar> \<le> 2 ^ 53" by simp
  then have b: "binary64 (of_int n) = Fin (of_int n)" by (rule binary64_of_int)
  have "round2_rat (of_int n) \<le> round2_rat q" using assms(3) by (rule round2_rat_mono)
  then have "of_int n \<le> round2_rat q" by simp
  then have "float_le (binary64 (of_int n)) (binary64 (round2_rat q))" by (rule binary64_mono)
  then show ?thesis unfolding b by (simp only: float_round2_Fin)
qed

lemma float_round2_le_int:
  assumes "0 \<le> q" and "binary64 q = Fin q" and "q \<le> of_int n"
  shows "float_le (float_round2 (Fin q)) (Fin (of_int n))"
proof (cases "2 ^ 52 \<le> \<bar>q\<bar>")
  case True
  with assms show ?thesis by (simp add: round2_rat_large del: float_round2.simps)
next
  case False
  define k where "k = min n (2 ^ 52)"
  have k: "q \<le> of_int k" "\<bar>k\<bar> \<le> 2 ^ 53" "k \<le> n"
  proof -
    from False assms(1) have "q \<le> of_int (2 ^ 52)" by simp
    with assms(3) show "q \<le> of_int k" by (simp add: k_def min_def)
    from assms(1) this have "0 \<le> rat_of_int k" by linarith
    then have "0 \<le> k" by simp
    then show "\<bar>k\<bar> \<le> 2 ^ 53" by (simp add: k_def)
    show "k \<le> n" by (simp add: k_def)
  qed
  have b: "binary64 (of_int k) = Fin (of_int k)" using k(2) by (rule binary64_of_int)
  have "round2_rat q \<le> round2_rat (of_int k)" using k(1) by (rule round2_rat_mono)
  then have "round2_rat q \<le> of_int k" by simp
  then have "float_le (binary64 (round2_rat q)) (binary64 (of_int k))" by (rule binary64_mono)
  then have "float_le (float_round2 (Fin q)) (Fin (of_int k))"
    unfolding b by (simp only: float_round2_Fin)
  moreover have "float_le (Fin (rat_of_int k)) (Fin (of_int n))" using k(3) by simp
  ultimately show ?thesis by (rule float_le_trans)
qed

subsection \<open>The nearest number\<close>

text \<open>
  What the rounding functions compute, whatever their definitions: \<open>round_half_even\<close>
  gives a nearest integer, \<open>round2_rat\<close> a nearest number of two decimals, and
  \<open>binary64\<close> a nearest binary64 number.
\<close>

lemma rhe_half: "\<bar>of_int (round_half_even q) - q\<bar> \<le> 1 / 2"
proof -
  have "of_int \<lfloor>q\<rfloor> \<le> q" "q < of_int \<lfloor>q\<rfloor> + 1" by linarith+
  then show ?thesis
    by (auto simp: round_half_even_def Let_def abs_le_iff)
qed

lemma rhe_nearest: "\<bar>of_int (round_half_even q) - q\<bar> \<le> \<bar>of_int n - q\<bar>"
proof (cases "n = round_half_even q")
  case False
  then have "n \<le> round_half_even q - 1 \<or> round_half_even q + 1 \<le> n" by linarith
  then have "rat_of_int n \<le> of_int (round_half_even q) - 1 \<or>
      of_int (round_half_even q) + 1 \<le> rat_of_int n"
    by (metis of_int_1 of_int_add of_int_diff of_int_le_iff)
  with rhe_half [of q] show ?thesis by linarith
qed simp

lemma rhe_near:
  assumes "of_int m - 1 / 2 < q" and "q < of_int m + 1 / 2"
  shows "round_half_even q = m"
proof -
  have "\<lfloor>q\<rfloor> = m \<or> \<lfloor>q\<rfloor> = m - 1" using assms by linarith
  then show ?thesis
  proof
    assume "\<lfloor>q\<rfloor> = m"
    with assms show ?thesis by (simp add: round_half_even_def Let_def)
  next
    assume "\<lfloor>q\<rfloor> = m - 1"
    with assms show ?thesis by (simp add: round_half_even_def Let_def)
  qed
qed

lemma rhe_tie:
  "round_half_even (of_int m + 1 / 2) = (if even m then m else m + 1)"
proof -
  have "\<lfloor>rat_of_int m + 1 / 2\<rfloor> = m" by linarith
  then show ?thesis by (simp add: round_half_even_def Let_def)
qed

lemma round2_rat_decimal: "\<exists>n. round2_rat q = of_int n / 100"
  by (auto simp: round2_rat_def)

lemma round2_rat_nearest: "\<bar>round2_rat q - q\<bar> \<le> \<bar>of_int n / 100 - q\<bar>"
proof -
  have "\<bar>of_int (round_half_even (q * 100)) - q * 100\<bar> \<le> \<bar>of_int n - q * 100\<bar>"
    by (rule rhe_nearest)
  then have "\<bar>of_int (round_half_even (q * 100)) / 100 - q\<bar> \<le> \<bar>of_int n / 100 - q\<bar>"
    by (simp add: abs_le_iff field_simps)
  then show ?thesis by (simp add: round2_rat_def)
qed

lemma pow2_1023_less_overflow: "(2::rat) powi 1023 < overflow"
  unfolding overflow_def by (rule power_int_strict_increasing) simp_all

lemma binary64_normal:
  assumes lo: "2 powi k \<le> \<bar>q\<bar>" and hi: "\<bar>q\<bar> < 2 powi (k + 1)"
    and k: "- 1022 \<le> k" "k \<le> 1022"
    and m: "round_half_even (q * 2 powi (52 - k)) = m"
  shows "binary64 q = Fin (of_int m * 2 powi (k - 52))"
proof -
  have il: "ilog2 \<bar>q\<bar> = k" using lo hi by (rule ilog2_unique)
  then have g: "gexp q = k - 52" using k by (simp add: gexp_def)
  have gr: "grid q = 2 powi (k - 52)" by (simp add: grid_gexp g)
  have "q / 2 powi (k - 52) = q * 2 powi (52 - k)"
    by (simp add: power_int_diff field_simps)
  then have rg: "round_grid q = of_int m * 2 powi (k - 52)"
    by (simp add: round_grid_def gr m)
  have "\<bar>round_grid q\<bar> \<le> 2 powi (k + 1)"
    using round_grid_abs_le [of q] by (simp add: g add.commute)
  also have "(2::rat) powi (k + 1) \<le> 2 powi 1023"
    using k by (intro power_int_increasing) simp_all
  also note pow2_1023_less_overflow
  finally have "\<bar>round_grid q\<bar> < overflow" .
  then have "round_grid q < overflow" "- overflow < round_grid q" by linarith+
  then have "binary64 q = Fin (round_grid q)" by (rule binary64_FinI)
  then show ?thesis by (simp add: rg)
qed

lemma round_grid_pow2: "- 1074 \<le> k \<Longrightarrow> round_grid (2 powi k) = 2 powi k"
proof (rule round_grid_fixed [of _ 1 k])
  assume k: "- 1074 \<le> k"
  have "\<bar>(2::rat) powi k\<bar> = 2 powi k" by (rule abs_of_nonneg) (simp add: zero_le_power_int)
  then show "gexp (2 powi k) \<le> k" unfolding gexp_def using k by simp
qed simp

lemma round_grid_overflow: "round_grid overflow = overflow"
  unfolding overflow_def by (rule round_grid_pow2) simp

lemma round_grid_abs: "round_grid \<bar>q\<bar> = \<bar>round_grid q\<bar>"
proof (cases "0 \<le> q")
  case True
  then show ?thesis using round_grid_nonneg [of q] by simp
next
  case False
  then have "0 \<le> round_grid (- q)" by (intro round_grid_nonneg) simp
  with False show ?thesis by (simp add: round_grid_minus abs_if)
qed

lemma binary64_overflow: "overflow \<le> q \<Longrightarrow> binary64 q = PosInf"
  using round_grid_mono [of overflow q] by (simp add: binary64_def round_grid_overflow)

lemma round_grid_multiple: "\<bar>round_grid q - q\<bar> \<le> \<bar>of_int n * grid q - q\<bar>"
proof -
  have "\<bar>of_int (round_half_even (q / grid q)) - q / grid q\<bar> \<le> \<bar>of_int n - q / grid q\<bar>"
    by (rule rhe_nearest)
  then have "\<bar>of_int (round_half_even (q / grid q)) - q / grid q\<bar> * grid q
      \<le> \<bar>of_int n - q / grid q\<bar> * grid q"
    by (intro mult_right_mono) simp_all
  then have "\<bar>(of_int (round_half_even (q / grid q)) - q / grid q) * grid q\<bar>
      \<le> \<bar>(of_int n - q / grid q) * grid q\<bar>"
    by (simp add: abs_mult)
  then show ?thesis by (simp add: round_grid_def left_diff_distrib)
qed

lemma gexp_le_971:
  assumes "\<bar>round_grid q\<bar> < overflow"
  shows "gexp q \<le> 971"
proof (rule ccontr)
  assume "\<not> gexp q \<le> 971"
  then have i: "1024 \<le> ilog2 \<bar>q\<bar>" by (simp add: gexp_def)
  have q0: "0 < \<bar>q\<bar>"
  proof (rule ccontr)
    assume "\<not> 0 < \<bar>q\<bar>"
    then have "q = 0" by simp
    with assms \<open>\<not> gexp q \<le> 971\<close> have "ilog2 0 \<ge> 1024" using i by simp
    then show False by (simp add: ilog2_def bitlen_alt_def)
  qed
  have "(2::rat) powi 1024 \<le> 2 powi ilog2 \<bar>q\<bar>"
    using i by (intro power_int_increasing) simp_all
  also have "\<dots> \<le> \<bar>q\<bar>" using q0 by (rule ilog2_bounds)
  finally have "overflow \<le> \<bar>q\<bar>" by (simp add: overflow_def)
  then have "overflow \<le> round_grid \<bar>q\<bar>"
    using round_grid_mono [of overflow "\<bar>q\<bar>"] by (simp add: round_grid_overflow)
  then show False using assms by (simp add: round_grid_abs)
qed

lemma round_grid_is_binary64:
  assumes "\<bar>round_grid q\<bar> < overflow"
  shows "is_binary64 (round_grid q)"
proof -
  define M where "M = round_half_even (q / grid q)"
  define g where "g = gexp q"
  have r: "round_grid q = of_int M * 2 powi g"
    by (simp add: round_grid_def M_def g_def grid_gexp)
  have g1: "- 1074 \<le> g" unfolding g_def by (rule gexp_ge)
  have g2: "g \<le> 971" unfolding g_def using assms by (rule gexp_le_971)
  have "\<bar>of_int M * (2::rat) powi g\<bar> \<le> 2 powi (g + 53)"
    using round_grid_abs_le [of q] by (simp add: r g_def)
  then have "\<bar>rat_of_int M\<bar> * 2 powi g \<le> 2 ^ 53 * 2 powi g"
    by (simp add: abs_mult power_int_add mult.commute)
  then have "\<bar>rat_of_int M\<bar> \<le> 2 ^ 53" by simp
  then have "rat_of_int \<bar>M\<bar> \<le> rat_of_int (2 ^ 53)" by simp
  then have M: "\<bar>M\<bar> \<le> 2 ^ 53" by (simp only: of_int_le_iff)
  show ?thesis
  proof (cases "\<bar>M\<bar> < 2 ^ 53")
    case True
    with r g1 g2 show ?thesis unfolding is_binary64_def by blast
  next
    case False
    with M have Me: "\<bar>M\<bar> = 2 ^ 53" by simp
    then have "\<bar>round_grid q\<bar> = 2 powi (g + 53)"
      by (simp add: r abs_mult power_int_add mult.commute)
    with assms have "(2::rat) powi (g + 53) < 2 powi 1024" by (simp add: overflow_def)
    then have "g + 53 < 1024" by (rule pow2_less_imp)
    then have g3: "g + 1 \<le> 971" by simp
    from Me have "M = 2 ^ 53 \<or> M = - (2 ^ 53)" by linarith
    then have "round_grid q = of_int (M div 2) * 2 powi (g + 1) \<and> \<bar>M div 2\<bar> < 2 ^ 53"
      by (auto simp: r power_int_add)
    with g1 g3 show ?thesis unfolding is_binary64_def
      by (intro exI [of _ "M div 2"] exI [of _ "g + 1"]) simp
  qed
qed

lemma binary64_is_binary64: "binary64 q = Fin r \<Longrightarrow> is_binary64 r"
proof -
  assume a: "binary64 q = Fin r"
  then have r: "r = round_grid q" "r < overflow" "- overflow < r"
    by (auto dest: binary64_Fin)
  then have "\<bar>round_grid q\<bar> < overflow" by simp
  then show ?thesis unfolding r(1) by (rule round_grid_is_binary64)
qed

lemma binary64_nearest:
  assumes "binary64 q = Fin r" and "is_binary64 r'"
  shows "\<bar>r - q\<bar> \<le> \<bar>r' - q\<bar>"
proof -
  from assms(1) have r: "r = round_grid q" by (auto dest: binary64_Fin)
  from assms(2) obtain m e where r': "r' = of_int m * 2 powi e"
    and m: "\<bar>m\<bar> < 2 ^ 53" and e: "- 1074 \<le> e"
    unfolding is_binary64_def by blast
  define g where "g = gexp q"
  have gr: "grid q = 2 powi g" by (simp add: grid_gexp g_def)
  show ?thesis
  proof (cases "g \<le> e")
    case True
    then have "(2::rat) powi e = 2 powi (e - g) * 2 powi g"
      by (simp add: power_int_add [symmetric])
    also have "(2::rat) powi (e - g) = of_int (2 ^ nat (e - g))"
      using True by (intro pow2_nonneg_int) simp
    finally have "r' = of_int (m * 2 ^ nat (e - g)) * grid q"
      by (simp add: r' gr)
    then show ?thesis unfolding r using round_grid_multiple [of q "m * 2 ^ nat (e - g)"]
      by simp
  next
    case False
    show ?thesis
    proof (cases "q = 0")
      case True
      then show ?thesis by (simp add: r)
    next
      case q0: False
      from False e have "- 1074 < g" by simp
      then have g: "g = ilog2 \<bar>q\<bar> - 52" unfolding g_def gexp_def by simp
      define B :: rat where "B = 2 powi (g + 52)"
      have Bq: "B \<le> \<bar>q\<bar>"
        unfolding B_def g using q0 ilog2_bounds(1) [of "\<bar>q\<bar>"] by simp
      have Bg: "B = of_int (2 ^ 52) * grid q"
        by (simp add: B_def gr power_int_add mult.commute)
      have "\<bar>r'\<bar> = rat_of_int \<bar>m\<bar> * 2 powi e" by (simp add: r' abs_mult)
      also have "\<dots> < rat_of_int (2 ^ 53) * 2 powi e"
        using m by (intro mult_strict_right_mono) (simp_all only: of_int_less_iff, simp)
      also have "\<dots> = 2 powi (e + 53)" by (simp add: power_int_add mult.commute)
      also have "\<dots> \<le> B" unfolding B_def using False
        by (intro power_int_increasing) simp_all
      finally have rB: "\<bar>r'\<bar> < B" .
      show ?thesis
      proof (cases "0 < q")
        case True
        have "\<bar>round_grid q - q\<bar> \<le> \<bar>of_int (2 ^ 52) * grid q - q\<bar>"
          by (rule round_grid_multiple)
        also have "\<dots> = q - B" unfolding Bg [symmetric] using Bq True by simp
        also have "\<dots> \<le> \<bar>r' - q\<bar>" using rB by linarith
        finally show ?thesis by (simp add: r)
      next
        case False
        with q0 have neg: "q < 0" by simp
        have "\<bar>round_grid q - q\<bar> \<le> \<bar>of_int (- (2 ^ 52)) * grid q - q\<bar>"
          by (rule round_grid_multiple)
        also have "of_int (- (2 ^ 52)) * grid q = - B" unfolding Bg by simp
        also have "\<bar>- B - q\<bar> = - q - B" using Bq neg by simp
        also have "\<dots> \<le> \<bar>r' - q\<bar>" using rB by linarith
        finally show ?thesis by (simp add: r)
      qed
    qed
  qed
qed

section \<open>The clip window\<close>

lemma float_sub_le:
  assumes "x \<noteq> NaN" and "is_double (PFloat x)" and "0 \<le> f"
  shows "float_le (float_sub x (Fin f)) x"
proof (cases x)
  case (Fin p)
  with assms(2) have d: "binary64 p = Fin p" by simp
  have "float_le (binary64 (p + - f)) (binary64 p)"
    using assms(3) by (intro binary64_mono) simp
  then show ?thesis by (simp add: Fin float_sub_def d)
qed (use assms in \<open>simp_all add: float_sub_def\<close>)

lemma float_add_ge:
  assumes "x \<noteq> NaN" and "is_double (PFloat x)" and "0 \<le> f"
  shows "float_le x (float_add x (Fin f))"
proof (cases x)
  case (Fin p)
  with assms(2) have d: "binary64 p = Fin p" by simp
  have "float_le (binary64 p) (binary64 (p + f))"
    using assms(3) by (intro binary64_mono) simp
  then show ?thesis by (simp add: Fin d)
qed (use assms in simp_all)

lemma is_double_float_add: "is_double (PFloat (float_add x (Fin f)))"
proof (cases x)
  case (Fin p)
  show ?thesis
    by (cases "binary64 (p + f)") (auto simp: Fin dest: binary64_idem)
qed simp_all

lemma is_double_float_sub: "is_double (PFloat (float_sub x (Fin f)))"
  unfolding float_sub_def float_neg.simps by (rule is_double_float_add)

lemma float_of_int_Some:
  assumes "float_of_int w = Some y"
  obtains f where "y = Fin f" "binary64 (of_int w) = Fin f"
  using assms by (cases "binary64 (of_int w)") (auto simp: float_of_int_def)

lemma float_of_int_nonneg:
  assumes "binary64 (of_int w) = Fin f" and "0 \<le> w"
  shows "0 \<le> f"
proof -
  from assms(1) have "f = round_grid (of_int w)" by (auto dest: binary64_Fin)
  with assms(2) show ?thesis by (simp add: round_grid_nonneg)
qed

lemma not_float_lt_0: "y \<noteq> NaN \<Longrightarrow> \<not> float_lt y (Fin 0) \<Longrightarrow> float_le (Fin 0) y"
  by (cases y) simp_all

text \<open>The two sides of the window, by the type of the time.\<close>

lemma clip_start_cases:
  assumes "py_sub_int s w = Inr d" and "py_max0 d = Inr st" and "py_round2 st = Inr cs"
  obtains (int) i where "num_of s = Fin (of_int i)" "is_double s" "cs = PInt (max (i - w) 0)"
    | (float) x f where "s = PFloat x" "binary64 (of_int w) = Fin f"
        "cs = (if float_lt (float_sub x (Fin f)) (Fin 0) then PInt 0
               else PFloat (float_round2 (float_sub x (Fin f))))"
proof (cases s)
  case (PInt i)
  with assms have "cs = PInt (max (i - w) 0)" by (auto simp: max_def split: if_splits)
  with PInt show ?thesis by (intro int [of i]) simp_all
next
  case (PBool b)
  with assms have "cs = PInt (max (of_bool b - w) 0)" by (auto simp: max_def split: if_splits)
  with PBool show ?thesis by (intro int [of "of_bool b"]) simp_all
next
  case (PFloat x)
  with assms(1) obtain y where y: "float_of_int w = Some y" "d = PFloat (float_sub x y)"
    by (auto split: option.splits)
  from y(1) obtain f where f: "y = Fin f" "binary64 (of_int w) = Fin f"
    by (rule float_of_int_Some)
  from assms(2,3) y(2) f(1)
  have "cs = (if float_lt (float_sub x (Fin f)) (Fin 0) then PInt 0
               else PFloat (float_round2 (float_sub x (Fin f))))"
    by (auto split: if_splits)
  with PFloat f(2) show ?thesis by (intro float)
qed (use assms in simp_all)

lemma clip_end_cases:
  assumes "py_add_int e w = Inr en" and "py_round2 en = Inr ce"
  obtains (int) j where "num_of e = Fin (of_int j)" "is_double e" "ce = PInt (j + w)"
    | (float) z f where "e = PFloat z" "binary64 (of_int w) = Fin f"
        "ce = PFloat (float_round2 (float_add z (Fin f)))"
proof (cases e)
  case (PInt j)
  with assms have "ce = PInt (j + w)" by auto
  with PInt show ?thesis by (intro int [of j]) simp_all
next
  case (PBool b)
  with assms have "ce = PInt (of_bool b + w)" by auto
  with PBool show ?thesis by (intro int [of "of_bool b"]) simp_all
next
  case (PFloat z)
  with assms(1) obtain y where y: "float_of_int w = Some y" "en = PFloat (float_add z y)"
    by (auto split: option.splits)
  from y(1) obtain f where f: "y = Fin f" "binary64 (of_int w) = Fin f"
    by (rule float_of_int_Some)
  from assms(2) y(2) f(1) have "ce = PFloat (float_round2 (float_add z (Fin f)))" by auto
  with PFloat f(2) show ?thesis by (intro float)
qed (use assms in simp_all)

lemma float_add_Fin_not_NaN: "x \<noteq> NaN \<Longrightarrow> float_add x (Fin f) \<noteq> NaN"
  by (cases x) simp_all

lemma float_sub_Fin_not_NaN: "x \<noteq> NaN \<Longrightarrow> float_sub x (Fin f) \<noteq> NaN"
  by (simp add: float_sub_def float_add_Fin_not_NaN)

lemma clip_start_nonneg:
  assumes "py_sub_int s w = Inr d" and "py_max0 d = Inr st" and "py_round2 st = Inr cs"
    and "py_le (PInt 0) s"
  shows "py_le (PInt 0) cs"
  using assms(1-3)
proof (cases rule: clip_start_cases)
  case (int i)
  then show ?thesis by (simp add: py_le_def)
next
  case (float x f)
  with assms(4) have x: "float_le (Fin 0) x" by (simp add: py_le_def)
  then have "x \<noteq> NaN" by (auto dest: float_le_not_NaN)
  then have nn: "float_sub x (Fin f) \<noteq> NaN" by (rule float_sub_Fin_not_NaN)
  show ?thesis
  proof (cases "float_lt (float_sub x (Fin f)) (Fin 0)")
    case True
    with float show ?thesis by (simp add: py_le_def)
  next
    case False
    with nn have "float_le (Fin 0) (float_sub x (Fin f))" by (rule not_float_lt_0)
    then have "float_le (Fin 0) (float_round2 (float_sub x (Fin f)))"
      by (rule float_round2_nonneg)
    with False float show ?thesis by (simp add: py_le_def)
  qed
qed

lemma clip_start_le_end:
  assumes sub: "py_sub_int s w = Inr d" "py_max0 d = Inr st" "py_round2 st = Inr cs"
    and add: "py_add_int e w = Inr en" "py_round2 en = Inr ce"
    and s0: "py_le (PInt 0) s" and se: "py_le s e"
    and ds: "is_double s" and de: "is_double e"
    and w: "0 \<le> w"
  shows "py_le cs ce"
  using sub
proof (cases rule: clip_start_cases)
  case si: (int i)
  from s0 si have i0: "0 \<le> i" by (simp add: py_le_def)
  from add show ?thesis
  proof (cases rule: clip_end_cases)
    case (int j)
    with si se have "i \<le> j" by (simp add: py_le_def)
    with si int w i0 show ?thesis by (simp add: py_le_def)
  next
    case (float z f)
    let ?n = "max (i - w) 0"
    let ?Y = "float_add z (Fin f)"
    from float_of_int_nonneg [OF float(2) w] have f0: "0 \<le> f" .
    from se si float have iz: "float_le (Fin (of_int i)) z" by (simp add: py_le_def)
    then have zn: "z \<noteq> NaN" by (auto dest: float_le_not_NaN)
    from de float have dz: "is_double (PFloat z)" by simp
    have zY: "float_le z ?Y" using zn dz f0 by (rule float_add_ge)
    have ni: "float_le (Fin (of_int ?n)) (Fin (of_int i))" using w i0 by simp
    have nY: "float_le (Fin (of_int ?n)) ?Y"
      using ni iz zY by (blast intro: float_le_trans)
    have "float_le (Fin (of_int ?n)) (float_round2 ?Y)"
    proof (cases ?Y)
      case (Fin y)
      then have "binary64 y = Fin y"
        using is_double_float_add [of z f] by simp
      moreover from nY Fin have "of_int ?n \<le> y" by simp
      ultimately show ?thesis
        unfolding Fin by (intro int_le_float_round2) simp_all
    next
      case PosInf
      then show ?thesis by simp
    qed (use nY in simp_all)
    with si float show ?thesis by (simp add: py_le_def)
  qed
next
  case sf: (float x f)
  let ?Y1 = "float_sub x (Fin f)"
  from float_of_int_nonneg [OF sf(2) w] have f0: "0 \<le> f" .
  from s0 sf have x0: "float_le (Fin 0) x" by (simp add: py_le_def)
  then have xn: "x \<noteq> NaN" by (auto dest: float_le_not_NaN)
  from ds sf have dx: "is_double (PFloat x)" by simp
  have Y1x: "float_le ?Y1 x" using xn dx f0 by (rule float_sub_le)
  have Y1n: "?Y1 \<noteq> NaN" using xn by (rule float_sub_Fin_not_NaN)
  from add show ?thesis
  proof (cases rule: clip_end_cases)
    case (int j)
    from se sf int have xj: "float_le x (Fin (of_int j))" by (simp add: py_le_def)
    from x0 xj have "float_le (Fin 0) (Fin (rat_of_int j))" by (rule float_le_trans)
    then have j0: "0 \<le> j" by simp
    show ?thesis
    proof (cases "float_lt ?Y1 (Fin 0)")
      case True
      with sf int j0 w show ?thesis by (simp add: py_le_def)
    next
      case False
      with Y1n have Y0: "float_le (Fin 0) ?Y1" by (rule not_float_lt_0)
      have Yj: "float_le ?Y1 (Fin (of_int (j + w)))"
      proof -
        have "float_le (Fin (of_int j)) (Fin (rat_of_int (j + w)))" using w by simp
        with Y1x xj show ?thesis by (blast intro: float_le_trans)
      qed
      from Y0 Yj obtain y where y: "?Y1 = Fin y" "0 \<le> y" "y \<le> of_int (j + w)"
        by (cases ?Y1) simp_all
      then have "binary64 y = Fin y"
        using is_double_float_sub [of x f] by simp
      with y have "float_le (float_round2 (Fin y)) (Fin (of_int (j + w)))"
        by (intro float_round2_le_int)
      with False sf int y(1) show ?thesis by (simp add: py_le_def del: float_round2.simps)
    qed
  next
    case (float z f')
    with sf have ff: "f' = f" by simp
    let ?Y2 = "float_add z (Fin f)"
    from se sf float have xz: "float_le x z" by (simp add: py_le_def)
    then have zn: "z \<noteq> NaN" by (auto dest: float_le_not_NaN)
    from de float have dz: "is_double (PFloat z)" by simp
    have zY: "float_le z ?Y2" using zn dz f0 by (rule float_add_ge)
    have xY2: "float_le x ?Y2" using xz zY by (rule float_le_trans)
    show ?thesis
    proof (cases "float_lt ?Y1 (Fin 0)")
      case True
      from x0 xY2 have "float_le (Fin 0) ?Y2" by (rule float_le_trans)
      then have "float_le (Fin 0) (float_round2 ?Y2)" by (rule float_round2_nonneg)
      with True sf float ff show ?thesis by (simp add: py_le_def)
    next
      case False
      from Y1x xY2 have "float_le ?Y1 ?Y2" by (rule float_le_trans)
      then have "float_le (float_round2 ?Y1) (float_round2 ?Y2)" by (rule float_round2_mono)
      with False sf float ff show ?thesis by (simp add: py_le_def)
    qed
  qed
qed

lemma list_all2_in_right:
  "list_all2 P xs ys \<Longrightarrow> y \<in> set ys \<Longrightarrow> \<exists>x \<in> set xs. P x y"
  by (induction rule: list_all2_induct) auto

lemma make_match_bounds:
  assumes "make_match ucd w seg = Inr m" and "timestamps_ok seg"
  shows "\<exists>md cs ce. m = PDict md \<and> map_of md ''clip_start'' = Some cs \<and>
           map_of md ''clip_end'' = Some ce \<and> py_le (PInt 0) cs \<and> (0 \<le> w \<longrightarrow> py_le cs ce)"
proof -
  from assms(1) obtain s d st e en fa cs ce tv t where
    h: "getitem seg ''start'' = Inr s" "py_sub_int s w = Inr d" "py_max0 d = Inr st"
    "getitem seg ''end'' = Inr e" "py_add_int e w = Inr en"
    "py_round2 s = Inr fa" "py_round2 st = Inr cs" "py_round2 en = Inr ce"
    and m: "m = PDict [(''found_at'', fa), (''clip_start'', cs), (''clip_end'', ce), (''text'', PStr t)]"
    by (rule make_match_Inr)
  from h(1,4) have se: "map_of seg ''start'' = Some s" "map_of seg ''end'' = Some e"
    by (auto simp: getitem_def split: option.splits)
  with assms(2) have ok: "py_le (PInt 0) s" "py_le s e" "is_double s" "is_double e"
    by (simp_all add: timestamps_ok_def)
  have 1: "py_le (PInt 0) cs"
    using h(2,3,7) ok(1) by (rule clip_start_nonneg)
  have 2: "py_le cs ce" if "0 \<le> w"
    using h(2,3,7) h(5,8) ok that by (rule clip_start_le_end)
  from 1 2 show ?thesis unfolding m by simp
qed

text \<open>
  Claim C3, as amended. Every match of the response is the entry of a segment of the
  request; and for a segment whose start is not negative and whose end is not before
  the start (ints, or floats that are binary64 numbers), \<open>clip_start\<close> is never
  negative, for every window, and \<open>clip_end\<close> is not below \<open>clip_start\<close> when the
  window is not negative. With a negative window \<open>clip_end\<close> can be below
  \<open>clip_start\<close>, as the last theorem of this section shows.
\<close>

theorem clip_window_bounds:
  assumes "search_keyword ucd data = Inr r" and "m \<in> set (matches_of r)"
  shows "(\<exists>seg \<in> set (segments data). make_match ucd (window data) seg = Inr m) \<and>
         (\<forall>seg \<in> set (segments data).
            make_match ucd (window data) seg = Inr m \<and> timestamps_ok seg \<longrightarrow>
            (\<exists>md cs ce. m = PDict md \<and> map_of md ''clip_start'' = Some cs \<and>
               map_of md ''clip_end'' = Some ce \<and> py_le (PInt 0) cs \<and>
               (0 \<le> window data \<longrightarrow> py_le cs ce)))"
proof -
  from assms(1) obtain res where
    res: "search_loop ucd (str_lower ucd (keyword data)) (window data) (segments data) [] = Inr res"
    and r: "r = PDict [(''keyword'', PStr (keyword data)), (''matches'', PList res)]"
    by (auto simp: search_keyword_def Let_def exn_bind_Inr_iff)
  from search_loop_filter [OF res]
  have all2: "list_all2 (\<lambda>seg m. make_match ucd (window data) seg = Inr m)
       (filter (text_contains ucd (keyword data)) (segments data)) res"
    by simp
  from assms(2) r have "m \<in> set res" by simp
  from list_all2_in_right [OF all2 this]
  have "\<exists>seg \<in> set (segments data). make_match ucd (window data) seg = Inr m" by auto
  then show ?thesis using make_match_bounds by blast
qed

lemma binary64_numeral:
  "\<bar>numeral k :: int\<bar> \<le> 2 ^ 53 \<Longrightarrow> binary64 (numeral k) = Fin (numeral k)"
  using binary64_of_int [of "numeral k"] by simp

lemma round2_rat_numeral [simp]: "round2_rat (numeral k) = numeral k"
  using round2_rat_of_int [of "numeral k"] by simp

theorem clip_window_bounds_witness:
  "search_keyword unicode_sample
     \<lparr>segments = [[(''text'', PStr ''Hello world''), (''start'', PFloat (Fin 10)),
                   (''end'', PFloat (Fin 12))]],
      keyword = ''world'', window = 5\<rparr>
   = Inr (PDict [(''keyword'', PStr ''world''),
        (''matches'', PList [PDict [(''found_at'', PFloat (Fin 10)), (''clip_start'', PFloat (Fin 5)),
            (''clip_end'', PFloat (Fin 17)), (''text'', PStr ''Hello world'')]])]) \<and>
   timestamps_ok [(''text'', PStr ''Hello world''), (''start'', PFloat (Fin 10)),
                  (''end'', PFloat (Fin 12))] \<and>
   (\<exists>md cs ce. PDict [(''found_at'', PFloat (Fin 10)), (''clip_start'', PFloat (Fin 5)),
            (''clip_end'', PFloat (Fin 17)), (''text'', PStr ''Hello world'')] = PDict md \<and>
      map_of md ''clip_start'' = Some cs \<and> map_of md ''clip_end'' = Some ce \<and>
      py_le (PInt 0) cs \<and> py_le cs ce)"
proof -
  let ?seg = "[(''text'', PStr ''Hello world''), (''start'', PFloat (Fin 10)),
                   (''end'', PFloat (Fin 12))]"
  let ?data = "\<lparr>segments = [?seg], keyword = ''world'', window = 5\<rparr>"
  let ?m = "PDict [(''found_at'', PFloat (Fin 10)), (''clip_start'', PFloat (Fin 5)),
            (''clip_end'', PFloat (Fin 17)), (''text'', PStr ''Hello world'')]"
  let ?r = "PDict [(''keyword'', PStr ''world''), (''matches'', PList [?m])]"
  have mm: "make_match unicode_sample 5 ?seg = Inr ?m"
    by (simp add: make_match_def getitem_def float_of_int_def float_sub_def binary64_numeral
        float_round2_Fin sample_eval del: float_round2.simps)
  have run: "search_keyword unicode_sample ?data = Inr ?r"
    by (simp add: search_keyword_def getitem_def sample_eval mm Let_def)
  have ok: "timestamps_ok ?seg"
    by (simp add: timestamps_ok_def py_le_def binary64_numeral)
  have mem: "?m \<in> set (matches_of ?r)" by simp
  from clip_window_bounds [OF run mem] mm ok
  have "\<exists>md cs ce. ?m = PDict md \<and> map_of md ''clip_start'' = Some cs \<and>
      map_of md ''clip_end'' = Some ce \<and> py_le (PInt 0) cs \<and> py_le cs ce"
    by simp
  with run ok show ?thesis by blast
qed

theorem clip_window_negative_counterexample:
  "search_keyword unicode_sample
     \<lparr>segments = [[(''text'', PStr ''a''), (''start'', PInt 10), (''end'', PInt 12)]],
      keyword = ''a'', window = - 100\<rparr>
   = Inr (PDict [(''keyword'', PStr ''a''),
        (''matches'', PList [PDict [(''found_at'', PInt 10), (''clip_start'', PInt 110),
            (''clip_end'', PInt (- 88)), (''text'', PStr ''a'')]])]) \<and>
   py_le (PInt 0) (PInt 10) \<and> py_le (PInt 10) (PInt 12) \<and>
   \<not> py_le (PInt 110) (PInt (- 88))"
  by (simp add: search_keyword_def make_match_def getitem_def sample_eval py_le_def Let_def)

section \<open>The empty keyword and the absent keyword\<close>

lemma search_loop_no_match:
  "\<forall>seg \<in> set segs. \<exists>t. map_of seg ''text'' = Some (PStr t) \<and> \<not> sublist kw (str_lower ucd t) \<Longrightarrow>
   search_loop ucd kw w segs acc = Inr acc"
  by (induction segs) (auto simp: getitem_def str_contains_sublist)

lemma text_contains_empty:
  "segment_ok w seg \<Longrightarrow> text_contains ucd [] seg"
  by (auto simp: segment_ok_def text_contains_def split: option.splits pyval.splits)

text \<open>
  Claim C4, as amended. With the empty keyword the search returns one match for every
  segment, in order, when the segments are as the data model has them: a string
  \<open>text\<close>, numbers \<open>start\<close> and \<open>end\<close>, and a window that Python can convert
  to a float where a time is a float. With a keyword that occurs in no text (every
  \<open>text\<close> being a string) it returns the empty list of matches, a normal response
  with status 200. For other segment sequences the search with the empty keyword can
  raise, as the last theorem of this section shows.
\<close>

theorem search_keyword_empty_and_absent:
  "(list_all (segment_ok (window data)) (segments data) \<and> keyword data = [] \<longrightarrow>
      (\<exists>ms. search_keyword ucd data = Inr (PDict [(''keyword'', PStr []), (''matches'', PList ms)]) \<and>
            list_all2 (\<lambda>seg m. make_match ucd (window data) seg = Inr m) (segments data) ms)) \<and>
   ((\<forall>seg \<in> set (segments data).
        \<exists>t. map_of seg ''text'' = Some (PStr t) \<and> \<not> sublist (str_lower ucd (keyword data)) (str_lower ucd t)) \<longrightarrow>
      search_keyword ucd data = Inr (PDict [(''keyword'', PStr (keyword data)), (''matches'', PList [])]) \<and>
      http_status (search_keyword ucd data) = 200)"
proof (rule conjI [OF impI impI])
  assume a: "list_all (segment_ok (window data)) (segments data) \<and> keyword data = []"
  then have "\<forall>seg \<in> set (segments data). text_contains ucd (keyword data) seg"
    using text_contains_empty by (auto simp: list_all_iff)
  then have filt: "filter (text_contains ucd (keyword data)) (segments data) = segments data"
    by simp
  from a search_loop_total [of "window data" "segments data" ucd "str_lower ucd (keyword data)" "[]"]
  obtain res where res: "search_loop ucd (str_lower ucd (keyword data)) (window data) (segments data) [] = Inr res"
    by blast
  from search_loop_filter [OF res] filt
  have "list_all2 (\<lambda>seg m. make_match ucd (window data) seg = Inr m) (segments data) res"
    by simp
  with res a
  show "\<exists>ms. search_keyword ucd data = Inr (PDict [(''keyword'', PStr []), (''matches'', PList ms)]) \<and>
            list_all2 (\<lambda>seg m. make_match ucd (window data) seg = Inr m) (segments data) ms"
    by (auto simp: search_keyword_def)
next
  assume "\<forall>seg \<in> set (segments data).
        \<exists>t. map_of seg ''text'' = Some (PStr t) \<and> \<not> sublist (str_lower ucd (keyword data)) (str_lower ucd t)"
  from search_loop_no_match [OF this, of "window data" "[]"]
  show "search_keyword ucd data = Inr (PDict [(''keyword'', PStr (keyword data)), (''matches'', PList [])]) \<and>
      http_status (search_keyword ucd data) = 200"
    by (simp add: search_keyword_def)
qed

theorem search_keyword_empty_and_absent_witness:
  "list_all (segment_ok 7)
     [[(''text'', PStr ''Hello world''), (''start'', PInt 10), (''end'', PInt 12)],
      [(''text'', PStr []), (''start'', PInt 20), (''end'', PInt 22)]] \<and>
   (\<exists>ms. search_keyword unicode_sample
       \<lparr>segments =
          [[(''text'', PStr ''Hello world''), (''start'', PInt 10), (''end'', PInt 12)],
           [(''text'', PStr []), (''start'', PInt 20), (''end'', PInt 22)]],
        keyword = [], window = 7\<rparr>
       = Inr (PDict [(''keyword'', PStr []), (''matches'', PList ms)]) \<and> length ms = 2) \<and>
   search_keyword unicode_sample
     \<lparr>segments =
        [[(''text'', PStr ''Hello world''), (''start'', PInt 10), (''end'', PInt 12)],
         [(''text'', PStr []), (''start'', PInt 20), (''end'', PInt 22)]],
      keyword = ''Zebra'', window = 7\<rparr>
     = Inr (PDict [(''keyword'', PStr ''Zebra''), (''matches'', PList [])])"
proof -
  let ?segs = "[[(''text'', PStr ''Hello world''), (''start'', PInt 10), (''end'', PInt 12)],
      [(''text'', PStr []), (''start'', PInt 20), (''end'', PInt 22)]]"
  have ok: "list_all (segment_ok 7) ?segs"
    by (simp add: segment_ok_def)
  have absent: "\<forall>seg \<in> set ?segs.
      \<exists>t. map_of seg ''text'' = Some (PStr t) \<and> \<not> sublist (str_lower unicode_sample ''Zebra'') (str_lower unicode_sample t)"
    by (simp add: str_contains_sublist [symmetric] sample_eval)
  from search_keyword_empty_and_absent [of "\<lparr>segments = ?segs, keyword = [], window = 7\<rparr>" unicode_sample] ok
  obtain ms where
    "search_keyword unicode_sample \<lparr>segments = ?segs, keyword = [], window = 7\<rparr>
       = Inr (PDict [(''keyword'', PStr []), (''matches'', PList ms)])"
    "list_all2 (\<lambda>seg m. make_match unicode_sample 7 seg = Inr m) ?segs ms"
    by auto
  moreover from this(2) have "length ms = 2"
    by (auto dest: list_all2_lengthD)
  moreover
  from search_keyword_empty_and_absent [of "\<lparr>segments = ?segs, keyword = ''Zebra'', window = 7\<rparr>" unicode_sample]
    absent
  have "search_keyword unicode_sample \<lparr>segments = ?segs, keyword = ''Zebra'', window = 7\<rparr>
     = Inr (PDict [(''keyword'', PStr ''Zebra''), (''matches'', PList [])])"
    by simp
  ultimately show ?thesis using ok by blast
qed

lemma str_contains_Nil: "str_contains t []"
  by (cases t) simp_all

lemma float_of_int_overflow: "float_of_int (2 ^ 1024) = None"
proof -
  have "rat_of_int (2 ^ 1024) = overflow"
    by (simp add: overflow_def power_int_def del: power_numeral)
  then have "binary64 (rat_of_int (2 ^ 1024)) = PosInf"
    by (simp only: binary64_overflow order_refl)
  then show ?thesis by (simp only: float_of_int_def pyfloat.case)
qed

text \<open>
  A segment with float times and the window \<open>2 ^ 1024\<close>, which no float holds; and a
  segment without the key \<open>start\<close>.
\<close>

theorem search_keyword_empty_counterexample:
  "search_keyword unicode_sample
     \<lparr>segments = [[(''text'', PStr ''a''), (''start'', PFloat (Fin (3 / 2))),
                   (''end'', PFloat (Fin (5 / 2)))]],
      keyword = [], window = 2 ^ 1024\<rparr>
   = Inl (OverflowError ''int too large to convert to float'') \<and>
   search_keyword unicode_sample
     \<lparr>segments = [[(''text'', PStr ''a'')]], keyword = [], window = 7\<rparr>
   = Inl (KeyError ''start'')"
proof -
  have "py_sub_int (PFloat (Fin (3 / 2))) (2 ^ 1024)
      = Inl (OverflowError ''int too large to convert to float'')"
    by (simp only: py_sub_int.simps float_of_int_overflow option.case)
  then have "make_match unicode_sample (2 ^ 1024)
      [(''text'', PStr ''a''), (''start'', PFloat (Fin (3 / 2))), (''end'', PFloat (Fin (5 / 2)))]
      = Inl (OverflowError ''int too large to convert to float'')"
    by (simp add: make_match_def getitem_def del: py_sub_int.simps power_numeral)
  then have 1: "search_keyword unicode_sample
     \<lparr>segments = [[(''text'', PStr ''a''), (''start'', PFloat (Fin (3 / 2))),
                   (''end'', PFloat (Fin (5 / 2)))]],
      keyword = [], window = 2 ^ 1024\<rparr>
   = Inl (OverflowError ''int too large to convert to float'')"
    by (simp add: search_keyword_def getitem_def str_contains_Nil del: power_numeral)
  have 2: "search_keyword unicode_sample
     \<lparr>segments = [[(''text'', PStr ''a'')]], keyword = [], window = 7\<rparr>
   = Inl (KeyError ''start'')"
    by (simp add: search_keyword_def getitem_def make_match_def str_contains_Nil)
  from 1 2 show ?thesis by (rule conjI)
qed

section \<open>The fields of a match\<close>

text \<open>The operations of the handler compute the formulas of the specification.\<close>

lemma py_round2_rounded2: "py_round2 v = Inr r \<Longrightarrow> r = rounded2 v"
proof (cases v)
  case (PFloat x)
  assume "py_round2 v = Inr r"
  with PFloat show ?thesis by (cases x) (auto simp: round2_rat_def)
qed auto

lemma py_add_int_plus_window: "py_add_int e w = Inr en \<Longrightarrow> en = plus_window e w"
proof (cases e)
  case (PFloat x)
  assume "py_add_int e w = Inr en"
  with PFloat obtain y where y: "float_of_int w = Some y" "en = PFloat (float_add x y)"
    by (auto split: option.splits)
  from y(1) obtain f where f: "y = Fin f" "binary64 (of_int w) = Fin f"
    by (rule float_of_int_Some)
  from f(2) have "f = round_grid (of_int w)" by (auto dest: binary64_Fin)
  with y(2) f(1) PFloat show ?thesis by (cases x) simp_all
qed auto

lemma py_sub_int_minus_window: "py_sub_int s w = Inr d \<Longrightarrow> d = minus_window s w"
proof (cases s)
  case (PFloat x)
  assume "py_sub_int s w = Inr d"
  with PFloat obtain y where y: "float_of_int w = Some y" "d = PFloat (float_sub x y)"
    by (auto split: option.splits)
  from y(1) obtain f where f: "y = Fin f" "binary64 (of_int w) = Fin f"
    by (rule float_of_int_Some)
  from f(2) have "f = round_grid (of_int w)" by (auto dest: binary64_Fin)
  with y(2) f(1) PFloat show ?thesis by (cases x) (simp_all add: float_sub_def)
qed auto

lemma py_max0_max_zero: "py_max0 d = Inr st \<Longrightarrow> st = max_zero d"
  by (cases d) (auto simp: max_def)

lemma py_sub_int_number: "py_sub_int s w = Inr d \<Longrightarrow> is_number s"
  by (cases s) auto

lemma py_add_int_number: "py_add_int e w = Inr en \<Longrightarrow> is_number e"
  by (cases e) auto

text \<open>
  \<^verbatim>\<open>strip\<close> gives the stripped text, and nothing else is one: \<open>stripped\<close> holds of
  exactly one string.
\<close>

lemma dropWhile_ends:
  "\<exists>a b. xs = a @ rev (dropWhile P (rev (dropWhile P xs))) @ b \<and>
     (\<forall>c \<in> set a. P c) \<and> (\<forall>c \<in> set b. P c) \<and>
     (rev (dropWhile P (rev (dropWhile P xs))) = [] \<or>
      (\<not> P (hd (rev (dropWhile P (rev (dropWhile P xs))))) \<and>
       \<not> P (last (rev (dropWhile P (rev (dropWhile P xs)))))))"
proof -
  define u where "u = dropWhile P xs"
  define v where "v = dropWhile P (rev u)"
  have s: "xs = takeWhile P xs @ u" by (simp add: u_def)
  have "rev u = takeWhile P (rev u) @ v" by (simp add: v_def)
  then have "u = rev (takeWhile P (rev u) @ v)" by (metis rev_rev_ident)
  then have u: "u = rev v @ rev (takeWhile P (rev u))" by simp
  have a: "\<forall>c \<in> set (takeWhile P xs). P c" by (auto dest: set_takeWhileD)
  have b: "\<forall>c \<in> set (rev (takeWhile P (rev u))). P c"
    by (auto dest: set_takeWhileD)
  have e: "\<not> P (hd (rev v)) \<and> \<not> P (last (rev v))" if "v \<noteq> []"
  proof -
    from that have "\<not> P (hd v)" unfolding v_def by (rule hd_dropWhile)
    then have l: "\<not> P (last (rev v))" using that by (simp add: last_rev)
    from that have un: "u \<noteq> []" using u by auto
    then have "\<not> P (hd u)" unfolding u_def by (rule hd_dropWhile)
    moreover have "hd u = hd (rev v)" using u that by (metis hd_append2 rev_is_Nil_conv)
    ultimately show ?thesis using l by simp
  qed
  have "xs = takeWhile P xs @ rev v @ rev (takeWhile P (rev u))"
    using s u by simp
  with a b e show ?thesis unfolding u_def [symmetric] v_def [symmetric]
    by (metis rev_is_Nil_conv)
qed

lemma str_strip_stripped: "stripped ucd t (str_strip ucd t)"
  using dropWhile_ends [of "utf8_chars t" "is_space ucd"]
  unfolding stripped_def str_strip_def by blast

lemma strip_middle:
  assumes a: "\<forall>c \<in> set a. P c" and b: "\<forall>c \<in> set b. P c"
    and m: "m = [] \<or> (\<not> P (hd m) \<and> \<not> P (last m))"
  shows "rev (dropWhile P (rev (dropWhile P (a @ m @ b)))) = m"
proof (cases "m = []")
  case True
  with a b have "\<forall>c \<in> set (a @ m @ b). P c" by auto
  then have d: "dropWhile P (a @ m @ b) = []" by (simp only: dropWhile_eq_Nil_conv)
  show ?thesis unfolding d using True by simp
next
  case False
  with m have h: "\<not> P (hd m)" and l: "\<not> P (last m)" by simp_all
  from a have "dropWhile P (a @ m @ b) = dropWhile P (m @ b)"
    by (simp add: dropWhile_append2)
  also from False h have "\<dots> = m @ b" by (cases m) simp_all
  finally have 1: "dropWhile P (a @ m @ b) = m @ b" .
  from b have "dropWhile P (rev b @ rev m) = dropWhile P (rev m)"
    by (intro dropWhile_append2) simp
  then have "dropWhile P (rev (m @ b)) = dropWhile P (rev m)" by simp
  also from False l have "\<dots> = rev m"
    by (cases "rev m") (simp_all add: last_rev [symmetric] hd_rev)
  finally show ?thesis by (simp add: 1)
qed

lemma stripped_iff: "stripped ucd t x \<longleftrightarrow> x = str_strip ucd t"
proof
  assume "stripped ucd t x"
  then obtain a m b where h: "utf8_chars t = a @ m @ b" "x = concat m"
    "\<forall>c \<in> set a. is_space ucd c" "\<forall>c \<in> set b. is_space ucd c"
    "m = [] \<or> (\<not> is_space ucd (hd m) \<and> \<not> is_space ucd (last m))"
    unfolding stripped_def by blast
  from strip_middle [OF h(3,4,5)] h(1,2) show "x = str_strip ucd t"
    by (simp add: str_strip_def)
next
  assume "x = str_strip ucd t"
  then show "stripped ucd t x" by (simp add: str_strip_stripped)
qed

text \<open>
  With a window of at most 53 bits the sum and the difference are the binary64 numbers
  nearest to the exact results.
\<close>

lemma plus_window_exact:
  "\<bar>w\<bar> \<le> 2 ^ 53 \<Longrightarrow> plus_window (PFloat (Fin q)) w = PFloat (binary64 (q + of_int w))"
  by (simp add: round_grid_of_int)

lemma minus_window_exact:
  "\<bar>w\<bar> \<le> 2 ^ 53 \<Longrightarrow> minus_window (PFloat (Fin q)) w = PFloat (binary64 (q - of_int w))"
  by (simp add: round_grid_of_int)

lemma py_strip_Inr: "py_strip ucd v = Inr x \<Longrightarrow> \<exists>t. v = PStr t \<and> x = str_strip ucd t"
  by (cases v) simp_all

lemma make_match_entry:
  assumes "make_match ucd w seg = Inr m"
  shows "\<exists>t s e x. map_of seg ''text'' = Some (PStr t) \<and> map_of seg ''start'' = Some s \<and>
           map_of seg ''end'' = Some e \<and> is_number s \<and> is_number e \<and> stripped ucd t x \<and>
           m = PDict [(''found_at'', rounded2 s),
                       (''clip_start'', rounded2 (max_zero (minus_window s w))),
                       (''clip_end'', rounded2 (plus_window e w)),
                       (''text'', PStr x)]"
proof -
  from assms obtain s d st e en fa cs ce tv x where
    h: "getitem seg ''start'' = Inr s" "py_sub_int s w = Inr d" "py_max0 d = Inr st"
    "getitem seg ''end'' = Inr e" "py_add_int e w = Inr en"
    "py_round2 s = Inr fa" "py_round2 st = Inr cs" "py_round2 en = Inr ce"
    "getitem seg ''text'' = Inr tv" "py_strip ucd tv = Inr x"
    and m: "m = PDict [(''found_at'', fa), (''clip_start'', cs), (''clip_end'', ce), (''text'', PStr x)]"
    by (rule make_match_Inr)
  from h(10) obtain t where t: "tv = PStr t" "x = str_strip ucd t"
    using py_strip_Inr by blast
  from h(1,4,9) t(1) have f: "map_of seg ''start'' = Some s" "map_of seg ''end'' = Some e"
    "map_of seg ''text'' = Some (PStr t)"
    by (auto simp: getitem_def split: option.splits)
  have d: "d = minus_window s w" using h(2) by (rule py_sub_int_minus_window)
  have st: "st = max_zero d" using h(3) by (rule py_max0_max_zero)
  have en: "en = plus_window e w" using h(5) by (rule py_add_int_plus_window)
  have fa: "fa = rounded2 s" using h(6) by (rule py_round2_rounded2)
  have cs: "cs = rounded2 st" using h(7) by (rule py_round2_rounded2)
  have ce: "ce = rounded2 en" using h(8) by (rule py_round2_rounded2)
  have n: "is_number s" "is_number e"
    using h(2,5) by (auto dest: py_sub_int_number py_add_int_number)
  have x: "stripped ucd t x" unfolding t(2) by (rule str_strip_stripped)
  from f n x show ?thesis unfolding m fa cs ce st d en by blast
qed

text \<open>
  Claim C2. Whenever the search returns, every segment of the request whose text
  contains the keyword has a string \<open>text\<close> and numbers \<open>start\<close> and \<open>end\<close>, and
  the matches hold the entry with exactly the four fields of the claim: \<open>found_at\<close>
  is the start rounded to two decimal places, \<open>clip_start\<close> the maximum of the start
  minus the window and \<open>0\<close>, rounded to two decimal places, \<open>clip_end\<close> the end plus
  the window, rounded to two decimal places, with no upper bound applied, and \<open>text\<close>
  the text stripped of its leading and trailing whitespace. The lemmas
  \<open>round2_rat_decimal\<close>, \<open>round2_rat_nearest\<close>, \<open>binary64_is_binary64\<close>,
  \<open>binary64_nearest\<close> and \<open>stripped_iff\<close> say what the formulas mean.
\<close>

theorem search_keyword_entry:
  assumes "search_keyword ucd data = Inr r"
    and "seg \<in> set (segments data)"
    and "text_contains ucd (keyword data) seg"
  shows "\<exists>t s e x. map_of seg ''text'' = Some (PStr t) \<and> map_of seg ''start'' = Some s \<and>
           map_of seg ''end'' = Some e \<and> is_number s \<and> is_number e \<and> stripped ucd t x \<and>
           PDict [(''found_at'', rounded2 s),
                  (''clip_start'', rounded2 (max_zero (minus_window s (window data)))),
                  (''clip_end'', rounded2 (plus_window e (window data))),
                  (''text'', PStr x)] \<in> set (matches_of r)"
proof -
  from assms(1) obtain res where
    res: "search_loop ucd (str_lower ucd (keyword data)) (window data) (segments data) [] = Inr res"
    and r: "r = PDict [(''keyword'', PStr (keyword data)), (''matches'', PList res)]"
    by (auto simp: search_keyword_def Let_def exn_bind_Inr_iff)
  from search_loop_filter [OF res]
  have all2: "list_all2 (\<lambda>seg m. make_match ucd (window data) seg = Inr m)
       (filter (text_contains ucd (keyword data)) (segments data)) res"
    by simp
  from assms(2,3) have "seg \<in> set (filter (text_contains ucd (keyword data)) (segments data))"
    by simp
  from list_all2_in_left [OF all2 this] obtain m where
    m: "m \<in> set res" "make_match ucd (window data) seg = Inr m" by blast
  from make_match_entry [OF m(2)] m(1) r show ?thesis
    by auto
qed

text \<open>
  A run with float times, where every rounding is a tie: the start 9.125 gives
  \<open>found_at\<close> 9.12 and \<open>clip_start\<close> 2.12 (from 2.125), the end 12.375 gives
  \<open>clip_end\<close> 19.38 (from 19.375). The three results are the binary64 numbers that
  Python prints as \<^verbatim>\<open>9.12\<close>, \<^verbatim>\<open>2.12\<close> and \<^verbatim>\<open>19.38\<close>. The text begins with a
  no-break space and ends with a next-line character.
\<close>

lemma binary64_228_25: "binary64 (228 / 25) = Fin (5134103575202365 / 562949953421312)"
  using binary64_normal [of 3 "228 / 25" 5134103575202365]
  by (simp add: rhe_near)

lemma binary64_53_25: "binary64 (53 / 25) = Fin (2386907802506363 / 1125899906842624)"
  using binary64_normal [of 1 "53 / 25" 4773815605012726]
  by (simp add: rhe_near)

lemma binary64_969_50: "binary64 (969 / 50) = Fin (5454985048652513 / 281474976710656)"
  using binary64_normal [of 4 "969 / 50" 5454985048652513]
  by (simp add: rhe_near)

lemma round2_rat_73_8: "round2_rat (73 / 8) = 228 / 25"
  using rhe_tie [of 912] by (simp add: round2_rat_def)

lemma round2_rat_155_8: "round2_rat (155 / 8) = 969 / 50"
  using rhe_tie [of 1937] by (simp add: round2_rat_def)

lemma binary64_17_8: "binary64 (17 / 8) = Fin (17 / 8)"
  using binary64_normal [of 1 "17 / 8" "17 * 2 ^ 48"] by (simp add: rhe_near)

lemma binary64_155_8: "binary64 (155 / 8) = Fin (155 / 8)"
  using binary64_normal [of 4 "155 / 8" "155 * 2 ^ 45"] by (simp add: rhe_near)

lemma round2_rat_17_8: "round2_rat (17 / 8) = 53 / 25"
  using rhe_tie [of 212] by (simp add: round2_rat_def)

theorem search_keyword_entry_witness:
  "search_keyword unicode_sample
     \<lparr>segments =
        [[(''text'', PStr ''no match''), (''start'', PInt 0), (''end'', PInt 1)],
         [(''text'', PStr ([CHR 0xC2, CHR 0xA0] @ '' small World '' @ [CHR 0xC2, CHR 0x85])),
          (''start'', PFloat (Fin (73 / 8))), (''end'', PFloat (Fin (99 / 8)))]],
      keyword = ''world'', window = 7\<rparr>
   = Inr (PDict [(''keyword'', PStr ''world''),
        (''matches'', PList [PDict
           [(''found_at'', PFloat (Fin (5134103575202365 / 562949953421312))),
            (''clip_start'', PFloat (Fin (2386907802506363 / 1125899906842624))),
            (''clip_end'', PFloat (Fin (5454985048652513 / 281474976710656))),
            (''text'', PStr ''small World'')]])]) \<and>
   stripped unicode_sample ([CHR 0xC2, CHR 0xA0] @ '' small World '' @ [CHR 0xC2, CHR 0x85])
     ''small World'' \<and>
   rounded2 (PFloat (Fin (73 / 8))) = PFloat (Fin (5134103575202365 / 562949953421312)) \<and>
   rounded2 (max_zero (minus_window (PFloat (Fin (73 / 8))) 7))
     = PFloat (Fin (2386907802506363 / 1125899906842624)) \<and>
   rounded2 (plus_window (PFloat (Fin (99 / 8))) 7)
     = PFloat (Fin (5454985048652513 / 281474976710656))"
proof -
  let ?t = "[CHR 0xC2, CHR 0xA0, CHR 0x20, CHR ''s'', CHR ''m'', CHR ''a'', CHR ''l'', CHR ''l'',
      CHR 0x20, CHR ''W'', CHR ''o'', CHR ''r'', CHR ''l'', CHR ''d'', CHR 0x20, CHR 0xC2, CHR 0x85]"
  let ?seg = "[(''text'', PStr ?t), (''start'', PFloat (Fin (73 / 8))),
      (''end'', PFloat (Fin (99 / 8)))]"
  let ?data = "\<lparr>segments =
        [[(''text'', PStr ''no match''), (''start'', PInt 0), (''end'', PInt 1)], ?seg],
      keyword = ''world'', window = 7\<rparr>"
  let ?m = "PDict
           [(''found_at'', PFloat (Fin (5134103575202365 / 562949953421312))),
            (''clip_start'', PFloat (Fin (2386907802506363 / 1125899906842624))),
            (''clip_end'', PFloat (Fin (5454985048652513 / 281474976710656))),
            (''text'', PStr ''small World'')]"
  let ?r = "PDict [(''keyword'', PStr ''world''), (''matches'', PList [?m])]"
  have mm: "make_match unicode_sample 7 ?seg = Inr ?m"
    by (simp add: make_match_def getitem_def float_of_int_def float_sub_def binary64_numeral
        float_round2_Fin binary64_17_8 binary64_155_8 round2_rat_73_8 round2_rat_155_8 round2_rat_17_8 binary64_228_25 binary64_53_25 binary64_969_50
        sample_eval del: float_round2.simps)
  have run: "search_keyword unicode_sample ?data = Inr ?r"
    by (simp add: search_keyword_def getitem_def sample_eval mm Let_def)
  have mem: "?seg \<in> set (segments ?data)" by simp
  have con: "text_contains unicode_sample (keyword ?data) ?seg"
    by (simp add: text_contains_def str_contains_sublist [symmetric] sample_eval)
  from search_keyword_entry [OF run mem con] obtain x where
    "stripped unicode_sample ?t x"
    "PDict [(''found_at'', rounded2 (PFloat (Fin (73 / 8)))),
            (''clip_start'', rounded2 (max_zero (minus_window (PFloat (Fin (73 / 8))) 7))),
            (''clip_end'', rounded2 (plus_window (PFloat (Fin (99 / 8))) 7)),
            (''text'', PStr x)] = ?m"
    by auto
  with run show ?thesis by simp
qed

section \<open>The handlers on the file system\<close>

lemma dirs_run_process [simp]:
  "VIDEO_DIR (sys\<lparr>run_process := r\<rparr>) = VIDEO_DIR sys"
  by (simp add: VIDEO_DIR_def)

text \<open>
  Claim C8. When the listing of the videos directory has no name that starts with the
  \<open>video_id\<close>, the handler returns the body \<^verbatim>\<open>{"error": "Video file not found"}\<close>, which
  FastAPI sends with status 200, in the state it started in; the result is the same
  whatever running a program would do: none is run.
\<close>

theorem generate_clip_not_found:
  assumes "os_listdir sys (VIDEO_DIR sys) w = Inr fs"
    and "\<forall>f \<in> set fs. \<not> prefix (video_id data) f"
  shows "generate_clip sys data w = (Inr (PDict [(''error'', PStr ''Video file not found'')]), w) \<and>
         http_status (fst (generate_clip sys data w)) = 200 \<and>
         (\<forall>r. generate_clip (sys\<lparr>run_process := r\<rparr>) data w = generate_clip sys data w)"
proof -
  from assms(2) have none: "filter (prefix (video_id data)) fs = []"
    by (simp add: filter_empty_conv)
  have eq: "generate_clip sys' data w = (Inr (PDict [(''error'', PStr ''Video file not found'')]), w)"
    if "os_listdir sys' (VIDEO_DIR sys') w = Inr fs" for sys' :: "'a system"
    using that none by (simp add: generate_clip_def io_return_def)
  have "generate_clip (sys\<lparr>run_process := r\<rparr>) data w = generate_clip sys data w" for r
    using eq [of sys] eq [of "sys\<lparr>run_process := r\<rparr>"] assms(1) by simp
  with eq [OF assms(1)] show ?thesis by simp
qed

theorem generate_clip_not_found_witness:
  "generate_clip sim_system \<lparr>video_id = ''zzz'', start_time = Fin 1, end_time = Fin 2\<rparr>
     \<lparr>sim_files = [''/app/videos/abc.mp4'', ''/app/temp/abc.wav''], sim_uuids = [''c1''],
      sim_procs = [], sim_locked = [], sim_log = []\<rparr>
   = (Inr (PDict [(''error'', PStr ''Video file not found'')]),
      \<lparr>sim_files = [''/app/videos/abc.mp4'', ''/app/temp/abc.wav''], sim_uuids = [''c1''],
       sim_procs = [], sim_locked = [], sim_log = []\<rparr>)"
proof -
  let ?w = "\<lparr>sim_files = [''/app/videos/abc.mp4'', ''/app/temp/abc.wav''], sim_uuids = [''c1''],
      sim_procs = [], sim_locked = [], sim_log = []\<rparr>"
  have ls: "os_listdir sim_system (VIDEO_DIR sim_system) ?w = Inr [''abc.mp4'']"
    by (simp add: sim_system_def VIDEO_DIR_def path_join_def sim_listdir_def)
  have no: "\<forall>f \<in> set [''abc.mp4'']. \<not> prefix (video_id \<lparr>video_id = ''zzz'', start_time = Fin 1, end_time = Fin 2\<rparr>) f"
    by simp
  from generate_clip_not_found [OF ls no] show ?thesis by simp
qed

lemma last_path_join: "p \<noteq> [] \<Longrightarrow> last (path_join a p) = last p"
  by (simp add: path_join_def)

lemma clip_paths_differ:
  "path_join a (c @ ''.mp4'') \<noteq> path_join b (c @ ''.wav'')"
proof
  assume "path_join a (c @ ''.mp4'') = path_join b (c @ ''.wav'')"
  then have "last (path_join a (c @ ''.mp4'')) = last (path_join b (c @ ''.wav''))"
    by simp
  then show False
    by (simp add: last_path_join)
qed

lemma clip_cleanup_result:
  "clip_cleanup sys p e w =
     (Inl e, if os_path_exists sys p w then snd (os_remove sys p w) else w)"
  by (simp add: clip_cleanup_def io_raise_def)

lemma generate_clip_failure:
  assumes "os_listdir sys (VIDEO_DIR sys) w = Inr fs"
    and "filter (prefix (video_id data)) fs = vf # vfs"
    and "uuid4 sys w = (clip_id, w1)"
    and "clip_body sys data (path_join (VIDEO_DIR sys) vf)
           (path_join (TEMP_DIR sys) (video_id data @ ''.wav'')) clip_id
           (path_join (CLIPS_DIR sys) (clip_id @ ''.mp4''))
           (path_join (AUDIO_DIR sys) (clip_id @ ''.wav'')) w1 = (Inl e, w2)"
  shows "generate_clip sys data w =
           (Inl e, if os_path_exists sys (path_join (CLIPS_DIR sys) (clip_id @ ''.mp4'')) w2
                   then snd (os_remove sys (path_join (CLIPS_DIR sys) (clip_id @ ''.mp4'')) w2)
                   else w2)"
  using assms by (simp add: generate_clip_def io_try_def clip_cleanup_result)

lemma clip_body_audio_failure:
  assumes "create_video_clip sys video_path (start_time data) (end_time data) cvp w1 = (Inr (), w1')"
    and "os_path_exists sys audio_path w1'"
    and "create_audio_clip sys audio_path (start_time data) (end_time data) cap w1' = (Inl e, w2)"
  shows "clip_body sys data video_path audio_path clip_id cvp cap w1 = (Inl e, w2)"
  using assms by (simp add: clip_body_def io_bind_def)

text \<open>
  Claim C10. When the body of the \<^verbatim>\<open>try\<close> of clip generation fails with \<open>e\<close>, also when
  the audio clip fails after the video clip was made, the handler raises \<open>e\<close> itself;
  the only thing done after the failure is the removal of the video clip when it exists,
  so it is gone unless the removal itself failed, and the audio clip is where it was.
\<close>

theorem generate_clip_cleanup:
  assumes ls: "os_listdir sys (VIDEO_DIR sys) w = Inr fs"
    and found: "filter (prefix (video_id data)) fs = vf # vfs"
    and uuid: "uuid4 sys w = (clip_id, w1)"
    and paths: "video_path = path_join (VIDEO_DIR sys) vf"
      "audio_path = path_join (TEMP_DIR sys) (video_id data @ ''.wav'')"
      "cvp = path_join (CLIPS_DIR sys) (clip_id @ ''.mp4'')"
      "cap = path_join (AUDIO_DIR sys) (clip_id @ ''.wav'')"
    and fail: "clip_body sys data video_path audio_path clip_id cvp cap w1 = (Inl e, w2) \<or>
      (\<exists>w1'. create_video_clip sys video_path (start_time data) (end_time data) cvp w1 = (Inr (), w1') \<and>
         os_path_exists sys audio_path w1' \<and>
         create_audio_clip sys audio_path (start_time data) (end_time data) cap w1' = (Inl e, w2))"
    and sound: "remove_sound sys"
  shows "\<exists>w3. generate_clip sys data w = (Inl e, w3) \<and>
           w3 = (if os_path_exists sys cvp w2 then snd (os_remove sys cvp w2) else w2) \<and>
           (os_path_exists sys cvp w3 \<longrightarrow> (\<exists>e'. fst (os_remove sys cvp w2) = Inl e')) \<and>
           os_path_exists sys cap w3 = os_path_exists sys cap w2"
proof -
  let ?w3 = "if os_path_exists sys cvp w2 then snd (os_remove sys cvp w2) else w2"
  from fail have body: "clip_body sys data video_path audio_path clip_id cvp cap w1 = (Inl e, w2)"
    by (auto intro: clip_body_audio_failure)
  from generate_clip_failure [OF ls found uuid] body paths
  have run: "generate_clip sys data w = (Inl e, ?w3)" by simp
  have gone: "\<exists>e'. fst (os_remove sys cvp w2) = Inl e'" if "os_path_exists sys cvp ?w3"
  proof (cases "os_remove sys cvp w2")
    case (Pair r w')
    show ?thesis
    proof (cases r)
      case (Inl e')
      with Pair show ?thesis by simp
    next
      case (Inr u)
      with Pair sound have "\<not> os_path_exists sys cvp w'"
        by (simp add: remove_sound_def)
      with that Pair show ?thesis by (simp split: if_splits)
    qed
  qed
  have "cap \<noteq> cvp" using paths clip_paths_differ [of "CLIPS_DIR sys" clip_id "AUDIO_DIR sys"]
    by auto
  with sound have "os_path_exists sys cap ?w3 = os_path_exists sys cap w2"
    by (simp add: remove_sound_def)
  with run gone show ?thesis by blast
qed

lemma remove_sound_sim: "remove_sound sim_system"
  by (auto simp: remove_sound_def sim_system_def sim_remove_def split: if_splits)

theorem generate_clip_cleanup_witness:
  "generate_clip sim_system \<lparr>video_id = ''abc'', start_time = Fin 1, end_time = Fin 2\<rparr>
     \<lparr>sim_files = [''/app/videos/abc.mp4'', ''/app/temp/abc.wav''], sim_uuids = [''c1''],
      sim_procs = [(0, [''/app/clips/c1.mp4'']), (1, [''/app/audio/c1.wav''])],
      sim_locked = [], sim_log = []\<rparr>
   = (Inl (CalledProcessError 1
        [''ffmpeg'', ''-y'', ''-i'', ''/app/temp/abc.wav'', ''-ss'', ''0.0'', ''-t'', ''0.0'',
         ''-ac'', ''1'', ''-ar'', ''16000'', ''/app/audio/c1.wav'']),
      \<lparr>sim_files = [''/app/audio/c1.wav'', ''/app/videos/abc.mp4'', ''/app/temp/abc.wav''],
       sim_uuids = [], sim_procs = [], sim_locked = [],
       sim_log =
         [[''ffmpeg'', ''-y'', ''-i'', ''/app/videos/abc.mp4'', ''-ss'', ''0.0'', ''-t'', ''0.0'',
           ''-c'', ''copy'', ''/app/clips/c1.mp4''],
          [''ffmpeg'', ''-y'', ''-i'', ''/app/temp/abc.wav'', ''-ss'', ''0.0'', ''-t'', ''0.0'',
           ''-ac'', ''1'', ''-ar'', ''16000'', ''/app/audio/c1.wav'']]\<rparr>)"
proof -
  let ?data = "\<lparr>video_id = ''abc'', start_time = Fin 1, end_time = Fin 2\<rparr>"
  let ?w = "\<lparr>sim_files = [''/app/videos/abc.mp4'', ''/app/temp/abc.wav''], sim_uuids = [''c1''],
      sim_procs = [(0, [''/app/clips/c1.mp4'']), (1, [''/app/audio/c1.wav''])],
      sim_locked = [], sim_log = []\<rparr>"
  let ?w1 = "\<lparr>sim_files = [''/app/videos/abc.mp4'', ''/app/temp/abc.wav''], sim_uuids = [],
      sim_procs = [(0, [''/app/clips/c1.mp4'']), (1, [''/app/audio/c1.wav''])],
      sim_locked = [], sim_log = []\<rparr>"
  let ?cmd1 = "[''ffmpeg'', ''-y'', ''-i'', ''/app/videos/abc.mp4'', ''-ss'', ''0.0'', ''-t'', ''0.0'',
           ''-c'', ''copy'', ''/app/clips/c1.mp4'']"
  let ?cmd2 = "[''ffmpeg'', ''-y'', ''-i'', ''/app/temp/abc.wav'', ''-ss'', ''0.0'', ''-t'', ''0.0'',
         ''-ac'', ''1'', ''-ar'', ''16000'', ''/app/audio/c1.wav'']"
  let ?w1' = "\<lparr>sim_files = [''/app/clips/c1.mp4'', ''/app/videos/abc.mp4'', ''/app/temp/abc.wav''],
      sim_uuids = [], sim_procs = [(1, [''/app/audio/c1.wav''])],
      sim_locked = [], sim_log = [?cmd1]\<rparr>"
  let ?w2 = "\<lparr>sim_files = [''/app/audio/c1.wav'', ''/app/clips/c1.mp4'', ''/app/videos/abc.mp4'',
        ''/app/temp/abc.wav''],
      sim_uuids = [], sim_procs = [], sim_locked = [], sim_log = [?cmd1, ?cmd2]\<rparr>"
  have ls: "os_listdir sim_system (VIDEO_DIR sim_system) ?w = Inr [''abc.mp4'']"
    by (simp add: sim_system_def VIDEO_DIR_def path_join_def sim_listdir_def)
  have found: "filter (prefix (video_id ?data)) [''abc.mp4''] = ''abc.mp4'' # []"
    by simp
  have uuid: "uuid4 sim_system ?w = (''c1'', ?w1)"
    by (simp add: sim_system_def sim_uuid4_def)
  have paths: "''/app/videos/abc.mp4'' = path_join (VIDEO_DIR sim_system) ''abc.mp4''"
    "''/app/temp/abc.wav'' = path_join (TEMP_DIR sim_system) (video_id ?data @ ''.wav'')"
    "''/app/clips/c1.mp4'' = path_join (CLIPS_DIR sim_system) (''c1'' @ ''.mp4'')"
    "''/app/audio/c1.wav'' = path_join (AUDIO_DIR sim_system) (''c1'' @ ''.wav'')"
    by (simp_all add: sim_system_def VIDEO_DIR_def TEMP_DIR_def CLIPS_DIR_def AUDIO_DIR_def
        path_join_def)
  have video: "create_video_clip sim_system ''/app/videos/abc.mp4'' (start_time ?data)
      (end_time ?data) ''/app/clips/c1.mp4'' ?w1 = (Inr (), ?w1')"
    by (simp add: create_video_clip_def subprocess_run_def io_try_def io_bind_def io_return_def
        sim_system_def sim_run_def)
  have ex: "os_path_exists sim_system ''/app/temp/abc.wav'' ?w1'"
    by (simp add: sim_system_def)
  have audio: "create_audio_clip sim_system ''/app/temp/abc.wav'' (start_time ?data)
      (end_time ?data) ''/app/audio/c1.wav'' ?w1' = (Inl (CalledProcessError 1 ?cmd2), ?w2)"
    by (simp add: create_audio_clip_def subprocess_run_def io_bind_def io_raise_def
        sim_system_def sim_run_def)
  from video ex audio have fail:
    "clip_body sim_system ?data ''/app/videos/abc.mp4'' ''/app/temp/abc.wav'' ''c1''
       ''/app/clips/c1.mp4'' ''/app/audio/c1.wav'' ?w1 = (Inl (CalledProcessError 1 ?cmd2), ?w2) \<or>
     (\<exists>w1'. create_video_clip sim_system ''/app/videos/abc.mp4'' (start_time ?data)
         (end_time ?data) ''/app/clips/c1.mp4'' ?w1 = (Inr (), w1') \<and>
       os_path_exists sim_system ''/app/temp/abc.wav'' w1' \<and>
       create_audio_clip sim_system ''/app/temp/abc.wav'' (start_time ?data)
         (end_time ?data) ''/app/audio/c1.wav'' w1' = (Inl (CalledProcessError 1 ?cmd2), ?w2))"
    by blast
  from generate_clip_cleanup [OF ls found uuid paths fail remove_sound_sim]
  show ?thesis
    by (simp add: sim_system_def sim_remove_def)
qed

lemma upload_video_failure:
  assumes "uuid4 sys w = (vid, w1)"
    and "video_path = path_join (VIDEO_DIR sys)
           (vid @ (if splitext_ext (filename file) = [] then ''.mp4'' else splitext_ext (filename file)))"
    and "upload_body sys file vid video_path (path_join (TEMP_DIR sys) (vid @ ''.wav'')) w1 = (Inl e, w2)"
  shows "upload_video sys file w =
           (if os_path_exists sys video_path w2
            then (case os_remove sys video_path w2 of
                    (Inl e', w3) \<Rightarrow> (Inl e', w3)
                  | (Inr u, w3) \<Rightarrow> (Inl e, w3))
            else (Inl e, w2))"
  using assms
  by (simp add: upload_video_def Let_def io_try_def upload_cleanup_def io_bind_def io_raise_def
      split: prod.splits sum.splits)

text \<open>
  Claim C6 (where the code departs from it). When the body of the \<^verbatim>\<open>try\<close> of the upload
  fails with \<open>e\<close>, the video file exists and its removal raises \<open>e'\<close>, the handler raises
  \<open>e'\<close>: the removal stands outside any \<^verbatim>\<open>try\<close>, so its exception is not dropped, and
  it takes the place of \<open>e\<close>.
\<close>

theorem upload_video_removal_error:
  assumes "uuid4 sys w = (vid, w1)"
    and "video_path = path_join (VIDEO_DIR sys)
           (vid @ (if splitext_ext (filename file) = [] then ''.mp4'' else splitext_ext (filename file)))"
    and "upload_body sys file vid video_path (path_join (TEMP_DIR sys) (vid @ ''.wav'')) w1 = (Inl e, w2)"
    and "os_path_exists sys video_path w2"
    and "os_remove sys video_path w2 = (Inl e', w3)"
  shows "upload_video sys file w = (Inl e', w3)"
  using upload_video_failure [OF assms(1-3)] assms(4,5) by simp

theorem upload_video_removal_error_witness:
  "upload_video sim_system \<lparr>filename = ''talk.mov'', content = ''bytes''\<rparr>
     \<lparr>sim_files = [], sim_uuids = [''v1''], sim_procs = [(1, [])],
      sim_locked = [''/app/videos/v1.mov''], sim_log = []\<rparr>
   = (Inl (OSError ''[Errno 13] Permission denied''),
      \<lparr>sim_files = [''/app/videos/v1.mov''], sim_uuids = [], sim_procs = [],
       sim_locked = [''/app/videos/v1.mov''],
       sim_log = [[''ffmpeg'', ''-y'', ''-i'', ''/app/videos/v1.mov'', ''-ac'', ''1'', ''-ar'',
                   ''16000'', ''/app/temp/v1.wav'']]\<rparr>)"
proof -
  let ?file = "\<lparr>filename = ''talk.mov'', content = ''bytes''\<rparr>"
  let ?w = "\<lparr>sim_files = [], sim_uuids = [''v1''], sim_procs = [(1, [])],
      sim_locked = [''/app/videos/v1.mov''], sim_log = []\<rparr>"
  let ?w1 = "\<lparr>sim_files = [], sim_uuids = [], sim_procs = [(1, [])],
      sim_locked = [''/app/videos/v1.mov''], sim_log = []\<rparr>"
  let ?cmd = "[''ffmpeg'', ''-y'', ''-i'', ''/app/videos/v1.mov'', ''-ac'', ''1'', ''-ar'',
                   ''16000'', ''/app/temp/v1.wav'']"
  let ?w2 = "\<lparr>sim_files = [''/app/videos/v1.mov''], sim_uuids = [], sim_procs = [],
       sim_locked = [''/app/videos/v1.mov''], sim_log = [?cmd]\<rparr>"
  have ext: "splitext_ext (filename ?file) = ''.mov''"
    by (simp add: splitext_ext_def)
  have uuid: "uuid4 sim_system ?w = (''v1'', ?w1)"
    by (simp add: sim_system_def sim_uuid4_def)
  have path: "''/app/videos/v1.mov'' = path_join (VIDEO_DIR sim_system)
      (''v1'' @ (if splitext_ext (filename ?file) = [] then ''.mp4'' else splitext_ext (filename ?file)))"
    unfolding ext by (simp add: sim_system_def VIDEO_DIR_def path_join_def)
  have body: "upload_body sim_system ?file ''v1'' ''/app/videos/v1.mov''
      (path_join (TEMP_DIR sim_system) (''v1'' @ ''.wav'')) ?w1 = (Inl (CalledProcessError 1 ?cmd), ?w2)"
    by (simp add: upload_body_def extract_audio_def subprocess_run_def io_bind_def io_raise_def
        sim_system_def sim_write_def sim_run_def TEMP_DIR_def path_join_def)
  have ex: "os_path_exists sim_system ''/app/videos/v1.mov'' ?w2"
    by (simp add: sim_system_def)
  have rm: "os_remove sim_system ''/app/videos/v1.mov'' ?w2
      = (Inl (OSError ''[Errno 13] Permission denied''), ?w2)"
    by (simp add: sim_system_def sim_remove_def)
  from upload_video_removal_error [OF uuid path body ex rm] show ?thesis .
qed

lemma sublist_append_left: "sublist k x \<Longrightarrow> sublist k (x @ y)"
  by (auto simp: sublist_def) (metis append.assoc)

lemma sublist_append_right: "sublist k y \<Longrightarrow> sublist k (x @ y)"
  by (auto simp: sublist_def) (metis append.assoc)

lemma sublist_join_comma: "x \<in> set xs \<Longrightarrow> sublist k x \<Longrightarrow> sublist k (join_comma xs)"
proof (induction xs rule: join_comma.induct)
  case 1
  then show ?case by simp
next
  case (2 a)
  then show ?case by simp
next
  case (3 a b bs)
  have eq: "join_comma (a # b # bs) = a @ ('', '' @ join_comma (b # bs))" by simp
  show ?case
  proof (cases "x = a")
    case True
    with 3 show ?thesis unfolding eq by (intro sublist_append_left) simp
  next
    case False
    with 3 have "sublist k (join_comma (b # bs))" by simp
    then show ?thesis unfolding eq by (intro sublist_append_right)
  qed
qed

lemma concat_map_plain: "\<forall>c \<in> set k. f c = [c] \<Longrightarrow> concat (map f k) = k"
  by (induction k) simp_all

lemma sublist_repr_str:
  assumes "plain k" and "sublist k s"
  shows "sublist k (repr_str s)"
proof -
  from assms obtain p t where s: "s = p @ k @ t"
    by (auto simp: sublist_def)
  define q where "q = (if CHR 0x27 \<in> set s \<and> CHR 0x22 \<notin> set s then CHR 0x22 else CHR 0x27)"
  have q: "q = CHR 0x27 \<or> q = CHR 0x22" by (simp add: q_def)
  with assms(1) have "\<forall>c \<in> set k. repr_char q c = [c]"
    by (auto simp: plain_def)
  then have k: "concat (map (repr_char q) k) = k"
    by (rule concat_map_plain)
  have "repr_str s = q # concat (map (repr_char q) s) @ [q]"
    by (simp add: repr_str_def q_def Let_def)
  also have "concat (map (repr_char q) s) = concat (map (repr_char q) p) @ k @ concat (map (repr_char q) t)"
    unfolding s using k by simp
  finally have "repr_str s = (q # concat (map (repr_char q) p)) @ k @ (concat (map (repr_char q) t) @ [q])"
    by simp
  then show ?thesis
    unfolding sublist_def by blast
qed

lemma sublist_py_str_command:
  assumes "plain k" and "x \<in> set cmd" and "sublist k x"
  shows "sublist k (py_str sys (CalledProcessError rc cmd))"
proof -
  have "sublist k (repr_str x)"
    using assms(1,3) by (rule sublist_repr_str)
  moreover have "repr_str x \<in> set (map repr_str cmd)"
    using assms(2) by simp
  ultimately have "sublist k (join_comma (map repr_str cmd))"
    by (intro sublist_join_comma)
  then have "sublist k (repr_list cmd)"
    unfolding repr_list_def by (intro sublist_append_left sublist_append_right)
  then have "sublist k (repr_list cmd @ z)" for z
    by (rule sublist_append_left)
  then have "sublist k ([CHR 0x27] @ repr_list cmd @ z)" for z
    by (rule sublist_append_right)
  then have "sublist k (''Command '' @ [CHR 0x27] @ repr_list cmd @ z)" for z
    by (rule sublist_append_right)
  then show ?thesis
    by (cases "rc < 0") (simp_all only: py_str.simps if_True if_False)
qed

lemma plain_marker: "plain ''Video download failed''"
  by (simp add: plain_def repr_char_def)

lemma youtube_tool_failure:
  assumes "uuid4 sys w = (vid, w1)"
    and "template = path_join (VIDEO_DIR sys) (vid @ ''.%(ext)s'')"
    and "run_process sys
           [''python'', ''-m'', ''yt_dlp'', ''-f'', ''best[ext=mp4]/best'', ''-o'', template, url] w1
         = (Inr rc1, w2)"
    and "rc1 \<noteq> 0"
    and "run_process sys [''python'', ''-m'', ''yt_dlp'', ''-o'', template, url] w2 = (Inr rc2, w3)"
    and "rc2 \<noteq> 0"
  shows "youtube sys url w =
           youtube_cleanup sys vid
             (CalledProcessError rc2 [''python'', ''-m'', ''yt_dlp'', ''-o'', template, url]) w3"
  using assms
  by (simp add: youtube_def youtube_body_def io_try_def io_bind_def io_raise_def io_return_def
      subprocess_run_def)

text \<open>
  Claim C7 (where the code departs from it). When both runs of the downloader exit with
  a return code other than 0 and the URL contains the text \<^verbatim>\<open>Video download failed\<close>, the
  handler answers with the error of a download that left no file (status 400), not with
  the downloader error: the message of the CalledProcessError holds the command line,
  and with it the URL.
\<close>

theorem youtube_marker_in_url:
  assumes "uuid4 sys w = (vid, w1)"
    and "template = path_join (VIDEO_DIR sys) (vid @ ''.%(ext)s'')"
    and "run_process sys
           [''python'', ''-m'', ''yt_dlp'', ''-f'', ''best[ext=mp4]/best'', ''-o'', template, url] w1
         = (Inr rc1, w2)"
    and "rc1 \<noteq> 0"
    and "run_process sys [''python'', ''-m'', ''yt_dlp'', ''-o'', template, url] w2 = (Inr rc2, w3)"
    and "rc2 \<noteq> 0"
    and "os_listdir sys (VIDEO_DIR sys) w3 = Inr fs"
    and "sublist ''Video download failed'' url"
  shows "youtube sys url w =
           (Inl (HTTPException 400 ''Failed to download video. Please check the URL and try again.''),
            remove_each sys (VIDEO_DIR sys) (filter (prefix vid) fs) w3) \<and>
         http_status (fst (youtube sys url w)) = 400"
proof -
  let ?e = "CalledProcessError rc2 [''python'', ''-m'', ''yt_dlp'', ''-o'', template, url]"
  have "sublist ''Video download failed'' (py_str sys ?e)"
    using plain_marker _ assms(8) by (rule sublist_py_str_command) simp
  then have "youtube_cleanup sys vid ?e w3 =
      (Inl (HTTPException 400 ''Failed to download video. Please check the URL and try again.''),
       remove_each sys (VIDEO_DIR sys) (filter (prefix vid) fs) w3)"
    using assms(7) by (simp add: youtube_cleanup_def io_raise_def Let_def str_contains_sublist)
  with youtube_tool_failure [OF assms(1-6)] show ?thesis by simp
qed

theorem youtube_marker_in_url_witness:
  "youtube sim_system ''https://example.com/Video download failed''
     \<lparr>sim_files = [], sim_uuids = [''v1''], sim_procs = [(1, []), (1, [])], sim_locked = [],
      sim_log = []\<rparr>
   = (Inl (HTTPException 400 ''Failed to download video. Please check the URL and try again.''),
      \<lparr>sim_files = [], sim_uuids = [], sim_procs = [], sim_locked = [],
       sim_log =
         [[''python'', ''-m'', ''yt_dlp'', ''-f'', ''best[ext=mp4]/best'', ''-o'',
           ''/app/videos/v1.%(ext)s'', ''https://example.com/Video download failed''],
          [''python'', ''-m'', ''yt_dlp'', ''-o'', ''/app/videos/v1.%(ext)s'',
           ''https://example.com/Video download failed'']]\<rparr>)"
proof -
  let ?url = "''https://example.com/Video download failed''"
  let ?t = "''/app/videos/v1.%(ext)s''"
  let ?c1 = "[''python'', ''-m'', ''yt_dlp'', ''-f'', ''best[ext=mp4]/best'', ''-o'', ?t, ?url]"
  let ?c2 = "[''python'', ''-m'', ''yt_dlp'', ''-o'', ?t, ?url]"
  let ?w = "\<lparr>sim_files = [], sim_uuids = [''v1''], sim_procs = [(1, []), (1, [])],
      sim_locked = [], sim_log = []\<rparr>"
  let ?w1 = "\<lparr>sim_files = [], sim_uuids = [], sim_procs = [(1, []), (1, [])],
      sim_locked = [], sim_log = []\<rparr>"
  let ?w2 = "\<lparr>sim_files = [], sim_uuids = [], sim_procs = [(1, [])],
      sim_locked = [], sim_log = [?c1]\<rparr>"
  let ?w3 = "\<lparr>sim_files = [], sim_uuids = [], sim_procs = [],
      sim_locked = [], sim_log = [?c1, ?c2]\<rparr>"
  have uuid: "uuid4 sim_system ?w = (''v1'', ?w1)"
    by (simp add: sim_system_def sim_uuid4_def)
  have tmpl: "?t = path_join (VIDEO_DIR sim_system) (''v1'' @ ''.%(ext)s'')"
    by (simp add: sim_system_def VIDEO_DIR_def path_join_def)
  have run1: "run_process sim_system ?c1 ?w1 = (Inr 1, ?w2)"
    by (simp add: sim_system_def sim_run_def)
  have run2: "run_process sim_system ?c2 ?w2 = (Inr 1, ?w3)"
    by (simp add: sim_system_def sim_run_def)
  have ls: "os_listdir sim_system (VIDEO_DIR sim_system) ?w3 = Inr []"
    by (simp add: sim_system_def sim_listdir_def)
  have marker: "sublist ''Video download failed'' ?url"
    using sublist_append_leftI [of "''Video download failed''" "''https://example.com/''"]
    by simp
  have ne: "(1::int) \<noteq> 0" by simp
  from youtube_marker_in_url [OF uuid tmpl run1 ne run2 ne ls marker]
  show ?thesis by simp
qed

lemma youtube_cleanup_three_errors:
  assumes "os_listdir sys (VIDEO_DIR sys) w = Inr fs"
  shows "\<exists>d. youtube_cleanup sys vid e w =
           (Inl d, remove_each sys (VIDEO_DIR sys) (filter (prefix vid) fs) w) \<and>
         (d = HTTPException 400 ''Failed to download video. Please check the URL and try again.'' \<or>
          d = HTTPException 500
                ''YouTube downloader error. Please ensure yt-dlp is installed: pip install yt-dlp'' \<or>
          d = HTTPException 500 (''Error processing YouTube video: '' @ py_str sys e))"
  using assms by (simp add: youtube_cleanup_def io_raise_def Let_def)

lemma youtube_tool_failure_example:
  "youtube sim_system ''https://example.com/watch''
     \<lparr>sim_files = [], sim_uuids = [''v1''], sim_procs = [(1, []), (1, [])], sim_locked = [],
      sim_log = []\<rparr>
   = (Inl (HTTPException 500
        ''YouTube downloader error. Please ensure yt-dlp is installed: pip install yt-dlp''),
      \<lparr>sim_files = [], sim_uuids = [], sim_procs = [], sim_locked = [],
       sim_log =
         [[''python'', ''-m'', ''yt_dlp'', ''-f'', ''best[ext=mp4]/best'', ''-o'',
           ''/app/videos/v1.%(ext)s'', ''https://example.com/watch''],
          [''python'', ''-m'', ''yt_dlp'', ''-o'', ''/app/videos/v1.%(ext)s'',
           ''https://example.com/watch'']]\<rparr>)"
  by (simp add: youtube_def youtube_body_def youtube_cleanup_def io_try_def io_bind_def
      io_raise_def io_return_def subprocess_run_def sim_system_def sim_uuid4_def sim_run_def
      sim_listdir_def VIDEO_DIR_def TEMP_DIR_def path_join_def repr_list_def repr_str_def
      repr_char_def show_int_def hex_digit_def Let_def)

lemma youtube_no_file_example:
  "youtube sim_system ''https://example.com/watch''
     \<lparr>sim_files = [], sim_uuids = [''v1''], sim_procs = [(0, [])], sim_locked = [],
      sim_log = []\<rparr>
   = (Inl (HTTPException 400 ''Failed to download video. Please check the URL and try again.''),
      \<lparr>sim_files = [], sim_uuids = [], sim_procs = [], sim_locked = [],
       sim_log =
         [[''python'', ''-m'', ''yt_dlp'', ''-f'', ''best[ext=mp4]/best'', ''-o'',
           ''/app/videos/v1.%(ext)s'', ''https://example.com/watch'']]\<rparr>)"
  by (simp add: youtube_def youtube_body_def youtube_cleanup_def io_try_def io_bind_def
      io_raise_def io_return_def subprocess_run_def sim_system_def sim_uuid4_def sim_run_def
      sim_listdir_def VIDEO_DIR_def TEMP_DIR_def path_join_def)

end
